theory Spec2Isabelle
  imports Complex_Main "HOL-Library.Word"
begin

unbundle bit_operations_syntax

section \<open>Bitshuffle: data model\<close>

text \<open>
  The development follows \<^verbatim>\<open>src/fsfits/bitshuffle/bitshuffle.c\<close>.
  A buffer behind a \<^verbatim>\<open>void*\<close> is the list of the bytes that start at the pointer;
  \<^verbatim>\<open>p + k\<close> is \<open>drop k\<close> of that list. Input and output buffers are distinct lists,
  as the C interface requires (\<^verbatim>\<open>in != out\<close>).

  \<^verbatim>\<open>size_t\<close> values are natural numbers. The buffers the functions work on exist in
  memory, so \<open>size * elem_size\<close> is below \<open>2 ^ 64\<close> and the index arithmetic of the loops
  does not wrap; where a conversion to \<^verbatim>\<open>size_t\<close> does wrap (the error value of
  \<^verbatim>\<open>bshuf_compress_lz4_bound\<close>), the reduction modulo \<open>2 ^ 64\<close> is written out.
  \<^verbatim>\<open>int64_t\<close> counts and error codes are integers. The parameter the source calls
  \<^verbatim>\<open>size\<close> is written \<open>size'\<close>.
\<close>

type_synonym byte = "8 word"
type_synonym buf = "byte list"

subsection \<open>Constants and macros\<close>

definition BSHUF_MIN_RECOMMEND_BLOCK :: nat where
  "BSHUF_MIN_RECOMMEND_BLOCK = 128"

definition BSHUF_BLOCKED_MULT :: nat where
  "BSHUF_BLOCKED_MULT = 8"

definition BSHUF_TARGET_BLOCK_SIZE_B :: nat where
  "BSHUF_TARGET_BLOCK_SIZE_B = 8192"

text \<open>Line 42 of the source defines \<^verbatim>\<open>BSHUF_LZ4_DECOMPRESS_FAST\<close> unconditionally.\<close>

definition BSHUF_LZ4_DECOMPRESS_FAST :: bool where
  "BSHUF_LZ4_DECOMPRESS_FAST = True"

text \<open>\<^verbatim>\<open>#define MAX(X,Y) ((X) > (Y) ? (X) : (Y))\<close>\<close>

definition MAX_XY :: "nat \<Rightarrow> nat \<Rightarrow> nat" where
  "MAX_XY X Y = (if X > Y then X else Y)"

text \<open>
  Conversions between the C integer types: a signed value stored into a \<^verbatim>\<open>size_t\<close>
  (64 bits), and a \<^verbatim>\<open>size_t\<close> passed where an \<^verbatim>\<open>int\<close> (32 bits, two's complement)
  is expected.
\<close>

definition SIZE_MAX :: nat where
  "SIZE_MAX = 2 ^ 64 - 1"

definition to_size_t :: "int \<Rightarrow> nat" where
  "to_size_t i = nat (i mod 2 ^ 64)"

definition to_int32 :: "nat \<Rightarrow> int" where
  "to_int32 n = (int n + 2 ^ 31) mod 2 ^ 32 - 2 ^ 31"

subsection \<open>The LZ4 library\<close>

text \<open>
  LZ4 is an external library; its four entry points are parameters of the model.
  Each takes the bytes at its source pointer and returns the C return value together
  with the contents of the destination buffer after the call.
  \<^item> \<open>LZ4_compress src inputSize\<close>
  \<^item> \<open>LZ4_decompress_fast src originalSize\<close> (returns the number of bytes read)
  \<^item> \<open>LZ4_decompress_safe src compressedSize maxDecompressedSize\<close> (returns the
    number of bytes written)
\<close>

record lz4 =
  LZ4_compressBound :: "int \<Rightarrow> int"
  LZ4_compress :: "buf \<Rightarrow> int \<Rightarrow> int \<times> buf"
  LZ4_decompress_fast :: "buf \<Rightarrow> int \<Rightarrow> int \<times> buf"
  LZ4_decompress_safe :: "buf \<Rightarrow> int \<Rightarrow> int \<Rightarrow> int \<times> buf"

section \<open>Default block size and compressed bound\<close>

text \<open>
  \<^verbatim>\<open>bshuf_default_block_size\<close>: the integer division by \<open>elem_size\<close> traps when
  \<open>elem_size = 0\<close>; that outcome is \<open>None\<close>.
\<close>

definition bshuf_default_block_size :: "nat \<Rightarrow> nat option" where
  "bshuf_default_block_size elem_size =
     (if elem_size = 0 then None
      else
        let block_size = BSHUF_TARGET_BLOCK_SIZE_B div elem_size;
            block_size = (block_size div BSHUF_BLOCKED_MULT) * BSHUF_BLOCKED_MULT
        in Some (MAX_XY block_size BSHUF_MIN_RECOMMEND_BLOCK))"

text \<open>
  \<^verbatim>\<open>bshuf_compress_lz4_bound\<close> returns \<^verbatim>\<open>size_t\<close>: \<^verbatim>\<open>return -81\<close> converts the
  \<^verbatim>\<open>int\<close> to \<^verbatim>\<open>size_t\<close>, and the sums and products are taken modulo \<open>2 ^ 64\<close>.
  The test \<^verbatim>\<open>block_size < 0\<close> is never true of a \<^verbatim>\<open>size_t\<close>.
\<close>

definition bshuf_compress_lz4_bound :: "lz4 \<Rightarrow> nat \<Rightarrow> nat \<Rightarrow> nat \<Rightarrow> nat option" where
  "bshuf_compress_lz4_bound lz size' elem_size block_size0 =
     (case (if block_size0 = 0 then bshuf_default_block_size elem_size else Some block_size0) of
        None \<Rightarrow> None
      | Some block_size \<Rightarrow>
          if block_size mod BSHUF_BLOCKED_MULT \<noteq> 0 then Some (to_size_t (- 81))
          else
            let bound = (to_size_t (LZ4_compressBound lz (to_int32 (block_size * elem_size mod 2 ^ 64)) + 4)
                           * (size' div block_size)) mod 2 ^ 64;
                leftover = ((size' mod block_size) div BSHUF_BLOCKED_MULT) * BSHUF_BLOCKED_MULT;
                bound = (if leftover \<noteq> 0
                         then (bound + to_size_t (LZ4_compressBound lz (to_int32 (leftover * elem_size mod 2 ^ 64)) + 4)) mod 2 ^ 64
                         else bound);
                bound = (bound + (size' mod BSHUF_BLOCKED_MULT) * elem_size) mod 2 ^ 64
            in Some bound)"

section \<open>Memory, allocation and loops\<close>

text \<open>
  \<^verbatim>\<open>malloc\<close> is a parameter: \<open>al n\<close> is \<open>None\<close> when the allocation fails and
  \<open>Some b\<close> when it returns a fresh block, whose indeterminate contents are \<open>b\<close>.
\<close>

type_synonym allocator = "nat \<Rightarrow> buf option"


text \<open>
  \<^verbatim>\<open>memcpy(dst + doff, src + soff, n)\<close>, byte by byte.
\<close>

definition memcpy :: "buf \<Rightarrow> nat \<Rightarrow> buf \<Rightarrow> nat \<Rightarrow> nat \<Rightarrow> buf" where
  "memcpy dst doff src soff n = fold (\<lambda>t d. d[doff + t := src ! (soff + t)]) [0..<n] dst"

text \<open>
  The loop \<^verbatim>\<open>for (ii = i0; ii + k < n; ii += step) body\<close>. Every call site has a
  positive step (8, 16, 32 or \<open>8 * elem_size\<close> with a condition that is false
  when \<open>elem_size = 0\<close>). Loops counting up by one are \<open>fold\<close> over \<open>[a..<b]\<close>.
\<close>

function for_step :: "nat \<Rightarrow> nat \<Rightarrow> nat \<Rightarrow> nat \<Rightarrow> (nat \<Rightarrow> 's \<Rightarrow> 's) \<Rightarrow> 's \<Rightarrow> 's" where
  "for_step ii k n step body s =
     (if ii + k < n \<and> 0 < step then for_step (ii + step) k n step body (body ii s) else s)"
  by pat_completeness auto
termination
  by (relation "measure (\<lambda>(ii, k, n, step, body, s). n - (ii + k))") auto

declare for_step.simps [simp del]

text \<open>
  \<^verbatim>\<open>*(uint64_t* ) &b[off]\<close> on a little-endian machine (the SSE2 and AVX2 paths are
  x86 code; the scalar path is modelled on the same byte order).
\<close>

definition load_u64 :: "buf \<Rightarrow> nat \<Rightarrow> 64 word" where
  "load_u64 b off =
     ucast (b ! off) OR push_bit 8 (ucast (b ! (off + 1))) OR
     push_bit 16 (ucast (b ! (off + 2))) OR push_bit 24 (ucast (b ! (off + 3))) OR
     push_bit 32 (ucast (b ! (off + 4))) OR push_bit 40 (ucast (b ! (off + 5))) OR
     push_bit 48 (ucast (b ! (off + 6))) OR push_bit 56 (ucast (b ! (off + 7)))"

section \<open>Scalar primitives\<close>

text \<open>The macro \<^verbatim>\<open>TRANS_BIT_8X8(x, t)\<close>; the result is the new value of \<open>x\<close>.\<close>

definition TRANS_BIT_8X8 :: "64 word \<Rightarrow> 64 word" where
  "TRANS_BIT_8X8 x0 =
     (let t = (x0 XOR drop_bit 7 x0) AND 0x00AA00AA00AA00AA;
          x = x0 XOR t XOR push_bit 7 t;
          t = (x XOR drop_bit 14 x) AND 0x0000CCCC0000CCCC;
          x = x XOR t XOR push_bit 14 t;
          t = (x XOR drop_bit 28 x) AND 0x00000000F0F0F0F0;
          x = x XOR t XOR push_bit 28 t
      in x)"

text \<open>
  The eight stores \<^verbatim>\<open>out_b[dst kk] = x; x = x >> 8;\<close> that follow each
  \<^verbatim>\<open>TRANS_BIT_8X8\<close>: the loop state is the buffer and \<open>x\<close>.
\<close>

definition store_rows :: "(nat \<Rightarrow> nat) \<Rightarrow> 64 word \<Rightarrow> buf \<Rightarrow> buf" where
  "store_rows dst x out_b =
     fst (fold (\<lambda>kk (out, x). (out[dst kk := ucast x], drop_bit 8 x)) [0..<8] (out_b, x))"

definition bshuf_trans_byte_elem_remainder :: "buf \<Rightarrow> buf \<Rightarrow> nat \<Rightarrow> nat \<Rightarrow> nat \<Rightarrow> int \<times> buf" where
  "bshuf_trans_byte_elem_remainder in_b out_b size' elem_size start =
     (if start mod 8 \<noteq> 0 then (- 80, out_b)
      else if size' > start then
        let out_b = for_step start 7 size' 8 (\<lambda>ii.
                      fold (\<lambda>jj. fold (\<lambda>kk out.
                        out[jj * size' + ii + kk := in_b ! (ii * elem_size + kk * elem_size + jj)])
                        [0..<8]) [0..<elem_size]) out_b;
            out_b = fold (\<lambda>ii. fold (\<lambda>jj out.
                        out[jj * size' + ii := in_b ! (ii * elem_size + jj)])
                        [0..<elem_size]) [size' - size' mod 8..<size'] out_b
        in (int (size' * elem_size), out_b)
      else (int (size' * elem_size), out_b))"

definition bshuf_trans_byte_elem_scal :: "buf \<Rightarrow> buf \<Rightarrow> nat \<Rightarrow> nat \<Rightarrow> int \<times> buf" where
  "bshuf_trans_byte_elem_scal in_b out_b size' elem_size =
     bshuf_trans_byte_elem_remainder in_b out_b size' elem_size 0"

definition bshuf_trans_bit_byte_remainder :: "buf \<Rightarrow> buf \<Rightarrow> nat \<Rightarrow> nat \<Rightarrow> nat \<Rightarrow> int \<times> buf" where
  "bshuf_trans_bit_byte_remainder in_b out_b size' elem_size start_byte =
     (let nbyte = elem_size * size';
          nbyte_bitrow = nbyte div 8
      in if nbyte mod 8 \<noteq> 0 then (- 80, out_b)
         else if start_byte mod 8 \<noteq> 0 then (- 80, out_b)
         else (int (size' * elem_size),
               fold (\<lambda>ii out.
                  let x = load_u64 in_b (8 * ii);
                      x = TRANS_BIT_8X8 x
                  in store_rows (\<lambda>kk. kk * nbyte_bitrow + ii) x out)
                 [start_byte div 8..<nbyte_bitrow] out_b))"

definition bshuf_trans_bit_byte_scal :: "buf \<Rightarrow> buf \<Rightarrow> nat \<Rightarrow> nat \<Rightarrow> int \<times> buf" where
  "bshuf_trans_bit_byte_scal in_b out_b size' elem_size =
     bshuf_trans_bit_byte_remainder in_b out_b size' elem_size 0"

definition bshuf_trans_elem :: "buf \<Rightarrow> buf \<Rightarrow> nat \<Rightarrow> nat \<Rightarrow> nat \<Rightarrow> int \<times> buf" where
  "bshuf_trans_elem in_b out_b lda ldb elem_size =
     (int (lda * ldb * elem_size),
      fold (\<lambda>ii. fold (\<lambda>jj out.
              memcpy out ((jj * lda + ii) * elem_size) in_b ((ii * ldb + jj) * elem_size) elem_size)
            [0..<ldb]) [0..<lda] out_b)"

definition bshuf_trans_bitrow_eight :: "buf \<Rightarrow> buf \<Rightarrow> nat \<Rightarrow> nat \<Rightarrow> int \<times> buf" where
  "bshuf_trans_bitrow_eight in_b out_b size' elem_size =
     (let nbyte_bitrow = size' div 8
      in if size' mod 8 \<noteq> 0 then (- 80, out_b)
         else bshuf_trans_elem in_b out_b 8 elem_size nbyte_bitrow)"

text \<open>
  \<^verbatim>\<open>CHECK_ERR_FREE(count, tmp_buf)\<close> returns \<open>count\<close> when it is negative; the
  output buffer then holds what the steps so far have written.
\<close>

definition bshuf_trans_bit_elem_scal :: "allocator \<Rightarrow> buf \<Rightarrow> buf \<Rightarrow> nat \<Rightarrow> nat \<Rightarrow> int \<times> buf" where
  "bshuf_trans_bit_elem_scal al in_b out_b size' elem_size =
     (if size' mod 8 \<noteq> 0 then (- 80, out_b)
      else case al (size' * elem_size) of
        None \<Rightarrow> (- 1, out_b)
      | Some tmp_buf \<Rightarrow>
          let (count, out_b) = bshuf_trans_byte_elem_scal in_b out_b size' elem_size
          in if count < 0 then (count, out_b)
             else
               let (count, tmp_buf) = bshuf_trans_bit_byte_scal out_b tmp_buf size' elem_size
               in if count < 0 then (count, out_b)
                  else bshuf_trans_bitrow_eight tmp_buf out_b size' elem_size)"

definition bshuf_trans_byte_bitrow_scal :: "buf \<Rightarrow> buf \<Rightarrow> nat \<Rightarrow> nat \<Rightarrow> int \<times> buf" where
  "bshuf_trans_byte_bitrow_scal in_b out_b size' elem_size =
     (let nbyte_row = size' div 8
      in if size' mod 8 \<noteq> 0 then (- 80, out_b)
         else (int (size' * elem_size),
               fold (\<lambda>jj. fold (\<lambda>ii. fold (\<lambda>kk out.
                   out[ii * 8 * elem_size + jj * 8 + kk := in_b ! ((jj * 8 + kk) * nbyte_row + ii)])
                   [0..<8]) [0..<nbyte_row]) [0..<elem_size] out_b))"

definition bshuf_shuffle_bit_eightelem_scal :: "buf \<Rightarrow> buf \<Rightarrow> nat \<Rightarrow> nat \<Rightarrow> int \<times> buf" where
  "bshuf_shuffle_bit_eightelem_scal in_b out_b size' elem_size =
     (if size' mod 8 \<noteq> 0 then (- 80, out_b)
      else
        let nbyte = elem_size * size'
        in (int (size' * elem_size),
            for_step 0 0 (8 * elem_size) 8 (\<lambda>jj.
              for_step 0 (8 * elem_size - 1) nbyte (8 * elem_size) (\<lambda>ii out.
                let x = load_u64 in_b (ii + jj);
                    x = TRANS_BIT_8X8 x
                in store_rows (\<lambda>kk. ii + jj div 8 + kk * elem_size) x out)) out_b))"

definition bshuf_untrans_bit_elem_scal :: "allocator \<Rightarrow> buf \<Rightarrow> buf \<Rightarrow> nat \<Rightarrow> nat \<Rightarrow> int \<times> buf" where
  "bshuf_untrans_bit_elem_scal al in_b out_b size' elem_size =
     (if size' mod 8 \<noteq> 0 then (- 80, out_b)
      else case al (size' * elem_size) of
        None \<Rightarrow> (- 1, out_b)
      | Some tmp_buf \<Rightarrow>
          let (count, tmp_buf) = bshuf_trans_byte_bitrow_scal in_b tmp_buf size' elem_size
          in if count < 0 then (count, out_b)
             else bshuf_shuffle_bit_eightelem_scal tmp_buf out_b size' elem_size)"

section \<open>Drivers\<close>

text \<open>
  \<^verbatim>\<open>bshuf_trans_bit_elem\<close> and \<^verbatim>\<open>bshuf_untrans_bit_elem\<close> select the realization
  with the preprocessor. The model is the build in which neither \<^verbatim>\<open>__SSE2__\<close> nor
  \<^verbatim>\<open>__AVX2__\<close> is defined: the \<^verbatim>\<open>#else\<close> branch, which calls the scalar code.
\<close>

definition bshuf_trans_bit_elem :: "allocator \<Rightarrow> buf \<Rightarrow> buf \<Rightarrow> nat \<Rightarrow> nat \<Rightarrow> int \<times> buf" where
  "bshuf_trans_bit_elem al in_b out_b size' elem_size =
     (let (count, out_b) = bshuf_trans_bit_elem_scal al in_b out_b size' elem_size
      in (count, out_b))"

definition bshuf_untrans_bit_elem :: "allocator \<Rightarrow> buf \<Rightarrow> buf \<Rightarrow> nat \<Rightarrow> nat \<Rightarrow> int \<times> buf" where
  "bshuf_untrans_bit_elem al in_b out_b size' elem_size =
     (let (count, out_b) = bshuf_untrans_bit_elem_scal al in_b out_b size' elem_size
      in (count, out_b))"

section \<open>The I/O chain and the block framework\<close>

text \<open>
  Modelled from the spec: \<^verbatim>\<open>iochain.h\<close> and \<^verbatim>\<open>iochain.c\<close> (the type
  \<^verbatim>\<open>ioc_chain\<close> and \<^verbatim>\<open>ioc_init\<close>, \<^verbatim>\<open>ioc_get_in\<close>, \<^verbatim>\<open>ioc_set_next_in\<close>,
  \<^verbatim>\<open>ioc_get_out\<close>, \<^verbatim>\<open>ioc_set_next_out\<close>) are not among the sources. Following
  section 4.6 of the specification, \<open>get\<close> returns the current head of its side and
  \<open>set_next\<close> makes the given pointer the head. The loop over the blocks runs
  sequentially (the OpenMP pragma is ignored).

  A pointer is the byte offset from the buffer the chain was initialised with; it is
  an integer, since \<^verbatim>\<open>bshuf_decompress_lz4_block\<close> adds a signed header value to it.
  The state passed from worker to worker holds the two heads and the two buffers.
\<close>

record ioc_chain =
  in_mem :: buf
  out_mem :: buf
  next_in :: int
  next_out :: int

definition ioc_init :: "buf \<Rightarrow> buf \<Rightarrow> ioc_chain" where
  "ioc_init in_ptr out_ptr = \<lparr> in_mem = in_ptr, out_mem = out_ptr, next_in = 0, next_out = 0 \<rparr>"

definition ioc_get_in :: "ioc_chain \<Rightarrow> int" where
  "ioc_get_in C = next_in C"

definition ioc_set_next_in :: "ioc_chain \<Rightarrow> int \<Rightarrow> ioc_chain" where
  "ioc_set_next_in C p = C\<lparr>next_in := p\<rparr>"

definition ioc_get_out :: "ioc_chain \<Rightarrow> int" where
  "ioc_get_out C = next_out C"

definition ioc_set_next_out :: "ioc_chain \<Rightarrow> int \<Rightarrow> ioc_chain" where
  "ioc_set_next_out C p = C\<lparr>next_out := p\<rparr>"

text \<open>
  The bytes a pointer into a buffer addresses, and the buffer after the bytes at a
  pointer have been replaced. A pointer before the buffer addresses none of its bytes.
\<close>

definition at_ptr :: "buf \<Rightarrow> int \<Rightarrow> buf" where
  "at_ptr m p = (if p < 0 then [] else drop (nat p) m)"

definition store_at :: "buf \<Rightarrow> int \<Rightarrow> buf \<Rightarrow> buf" where
  "store_at m p v = (if p < 0 then m else take (nat p) m @ v)"

type_synonym bshufBlockFunDef = "ioc_chain \<Rightarrow> nat \<Rightarrow> nat \<Rightarrow> int \<times> ioc_chain"

text \<open>
  Lines 1116 to 1129 of \<^verbatim>\<open>bshuf_blocked_wrap_fun\<close>: the loop over the full blocks and
  the partial block. The result is \<open>(err, cum_count, C)\<close>.
\<close>

definition bshuf_blocked_loops ::
  "bshufBlockFunDef \<Rightarrow> ioc_chain \<Rightarrow> nat \<Rightarrow> nat \<Rightarrow> nat \<Rightarrow> int \<times> int \<times> ioc_chain" where
  "bshuf_blocked_loops fun C size' elem_size block_size =
     (let (err, cum_count, C) =
            fold (\<lambda>ii (err, cum_count, C).
                    let (count, C) = fun C block_size elem_size
                    in (if count < 0 then count else err, cum_count + count, C))
                 [0..<size' div block_size] (0, 0, C);
          last_block_size = size' mod block_size;
          last_block_size = last_block_size - last_block_size mod BSHUF_BLOCKED_MULT
      in if last_block_size \<noteq> 0
         then let (count, C) = fun C last_block_size elem_size
              in (if count < 0 then count else err, cum_count + count, C)
         else (err, cum_count, C))"

text \<open>
  \<^verbatim>\<open>bshuf_blocked_wrap_fun\<close>. The result is \<open>None\<close> when the call traps (the division
  in \<^verbatim>\<open>bshuf_default_block_size\<close>), and otherwise the return value together with
  the contents of the output buffer.
\<close>

definition bshuf_blocked_wrap_fun ::
  "bshufBlockFunDef \<Rightarrow> buf \<Rightarrow> buf \<Rightarrow> nat \<Rightarrow> nat \<Rightarrow> nat \<Rightarrow> (int \<times> buf) option" where
  "bshuf_blocked_wrap_fun fun in_ptr out_ptr size' elem_size block_size0 =
     (let C = ioc_init in_ptr out_ptr
      in case (if block_size0 = 0 then bshuf_default_block_size elem_size else Some block_size0) of
           None \<Rightarrow> None
         | Some block_size \<Rightarrow>
             if block_size mod BSHUF_BLOCKED_MULT \<noteq> 0 then Some (- 81, out_mem C)
             else
               let (err, cum_count, C) = bshuf_blocked_loops fun C size' elem_size block_size
               in if err < 0 then Some (err, out_mem C)
                  else
                    let leftover_bytes = size' mod BSHUF_BLOCKED_MULT * elem_size;
                        last_in = ioc_get_in C;
                        C = ioc_set_next_in C (last_in + int leftover_bytes);
                        last_out = ioc_get_out C;
                        C = ioc_set_next_out C (last_out + int leftover_bytes);
                        out' = memcpy (at_ptr (out_mem C) last_out) 0 (at_ptr (in_mem C) last_in) 0 leftover_bytes
                    in Some (cum_count + int leftover_bytes, store_at (out_mem C) last_out out'))"



section \<open>The LZ4 container\<close>

text \<open>
  \<^verbatim>\<open>bshuf_write_uint32_BE\<close> and \<^verbatim>\<open>bshuf_read_uint32_BE\<close>: the loops run
  \<open>ii = 3, 2, 1, 0\<close> in \<^verbatim>\<open>uint32_t\<close> arithmetic, with \<open>pow28 = 1 << 8\<close>.
\<close>

definition bshuf_write_uint32_BE :: "buf \<Rightarrow> 32 word \<Rightarrow> buf" where
  "bshuf_write_uint32_BE b num =
     (let pow28 = push_bit 8 1
      in fst (fold (\<lambda>ii (b, num). (b[ii := ucast (num mod pow28)], num div pow28)) [3, 2, 1, 0] (b, num)))"

definition bshuf_read_uint32_BE :: "buf \<Rightarrow> 32 word" where
  "bshuf_read_uint32_BE b =
     (let pow28 = push_bit 8 1
      in fst (fold (\<lambda>ii (num, cp). (num + ucast (b ! ii) * cp, cp * pow28)) [3, 2, 1, 0] (0, 1)))"

text \<open>
  \<^verbatim>\<open>CHECK_ERR_FREE_LZ(count, buf)\<close> is \<^verbatim>\<open>if (count < 0) { free(buf); return count - 1000; }\<close>.
\<close>

definition bshuf_compress_lz4_block :: "allocator \<Rightarrow> lz4 \<Rightarrow> bshufBlockFunDef" where
  "bshuf_compress_lz4_block al lz C size' elem_size =
     (case al (size' * elem_size) of
        None \<Rightarrow> (- 1, C)
      | Some tmp_buf_bshuf \<Rightarrow>
          (case al (to_size_t (LZ4_compressBound lz (to_int32 (size' * elem_size)))) of
             None \<Rightarrow> (- 1, C)
           | Some tmp_buf_lz4 \<Rightarrow>
               let in_p = ioc_get_in C;
                   C = ioc_set_next_in C (in_p + int (size' * elem_size));
                   (count, tmp_buf_bshuf) = bshuf_trans_bit_elem al (at_ptr (in_mem C) in_p) tmp_buf_bshuf size' elem_size
               in if count < 0 then (count, C)
                  else
                    let (nbytes, tmp_buf_lz4) = LZ4_compress lz tmp_buf_bshuf (to_int32 (size' * elem_size))
                    in if nbytes < 0 then (nbytes - 1000, C)
                       else
                         let out_p = ioc_get_out C;
                             C = ioc_set_next_out C (out_p + nbytes + 4);
                             out_b = at_ptr (out_mem C) out_p;
                             out_b = bshuf_write_uint32_BE out_b (word_of_int nbytes);
                             out_b = memcpy out_b 4 tmp_buf_lz4 0 (nat nbytes)
                         in (nbytes + 4, C\<lparr>out_mem := store_at (out_mem C) out_p out_b\<rparr>)))"

text \<open>
  \<^verbatim>\<open>bshuf_decompress_lz4_block\<close>, with the preprocessor test
  \<^verbatim>\<open>#ifdef BSHUF_LZ4_DECOMPRESS_FAST\<close> as the parameter \<open>fast\<close>. The header is read
  as \<^verbatim>\<open>uint32_t\<close> and stored in the \<^verbatim>\<open>int32_t nbytes_from_header\<close>
  (line 1279): \<open>sint\<close> reads the 32 bits as two's complement.
\<close>

definition nbytes_from_header :: "buf \<Rightarrow> int" where
  "nbytes_from_header in_b = sint (bshuf_read_uint32_BE in_b)"

definition bshuf_decompress_lz4_block_mode :: "bool \<Rightarrow> allocator \<Rightarrow> lz4 \<Rightarrow> bshufBlockFunDef" where
  "bshuf_decompress_lz4_block_mode fast al lz C size' elem_size =
     (let in_p = ioc_get_in C;
          nbytes_from_header = nbytes_from_header (at_ptr (in_mem C) in_p);
          C = ioc_set_next_in C (in_p + nbytes_from_header + 4);
          out_p = ioc_get_out C;
          C = ioc_set_next_out C (out_p + int (size' * elem_size))
      in case al (size' * elem_size) of
           None \<Rightarrow> (- 1, C)
         | Some tmp_buf \<Rightarrow>
             if fast then
               let (nbytes, tmp_buf) = LZ4_decompress_fast lz (at_ptr (in_mem C) (in_p + 4)) (to_int32 (size' * elem_size))
               in if nbytes < 0 then (nbytes - 1000, C)
                  else if nbytes \<noteq> nbytes_from_header then (- 91, C)
                  else
                    let (count, out') = bshuf_untrans_bit_elem al tmp_buf (at_ptr (out_mem C) out_p) size' elem_size;
                        C = C\<lparr>out_mem := store_at (out_mem C) out_p out'\<rparr>
                    in if count < 0 then (count, C) else (nbytes + 4, C)
             else
               let (nbytes, tmp_buf) = LZ4_decompress_safe lz (at_ptr (in_mem C) (in_p + 4)) nbytes_from_header
                                          (to_int32 (size' * elem_size))
               in if nbytes < 0 then (nbytes - 1000, C)
                  else if nbytes \<noteq> int (size' * elem_size) then (- 91, C)
                  else
                    let nbytes = nbytes_from_header;
                        (count, out') = bshuf_untrans_bit_elem al tmp_buf (at_ptr (out_mem C) out_p) size' elem_size;
                        C = C\<lparr>out_mem := store_at (out_mem C) out_p out'\<rparr>
                    in if count < 0 then (count, C) else (nbytes + 4, C))"

definition bshuf_decompress_lz4_block :: "allocator \<Rightarrow> lz4 \<Rightarrow> bshufBlockFunDef" where
  "bshuf_decompress_lz4_block = bshuf_decompress_lz4_block_mode BSHUF_LZ4_DECOMPRESS_FAST"

section \<open>Public functions\<close>



definition bshuf_compress_lz4 :: "allocator \<Rightarrow> lz4 \<Rightarrow> buf \<Rightarrow> buf \<Rightarrow> nat \<Rightarrow> nat \<Rightarrow> nat \<Rightarrow> (int \<times> buf) option" where
  "bshuf_compress_lz4 al lz in_ptr out_ptr size' elem_size block_size =
     bshuf_blocked_wrap_fun (bshuf_compress_lz4_block al lz) in_ptr out_ptr size' elem_size block_size"

definition bshuf_decompress_lz4 :: "allocator \<Rightarrow> lz4 \<Rightarrow> buf \<Rightarrow> buf \<Rightarrow> nat \<Rightarrow> nat \<Rightarrow> nat \<Rightarrow> (int \<times> buf) option" where
  "bshuf_decompress_lz4 al lz in_ptr out_ptr size' elem_size block_size =
     bshuf_blocked_wrap_fun (bshuf_decompress_lz4_block al lz) in_ptr out_ptr size' elem_size block_size"

section \<open>A stored-mode codec\<close>

text \<open>
  A concrete instance of the LZ4 interface, used where a statement is evaluated on
  concrete data: the compressed form of a block is the block itself.
\<close>

definition lz4_stored :: lz4 where
  "lz4_stored =
     \<lparr> LZ4_compressBound = (\<lambda>n. n + n div 255 + 16),
       LZ4_compress = (\<lambda>src n. if n < 0 \<or> 2113929216 < n then (0, []) else (n, take (nat n) src)),
       LZ4_decompress_fast = (\<lambda>src n. if n < 0 \<or> int (length src) < n then (- 1, []) else (n, take (nat n) src)),
       LZ4_decompress_safe = (\<lambda>src c m. if c < 0 \<or> m < c \<or> int (length src) < c then (- 1, []) else (c, take (nat c) src)) \<rparr>"

text \<open>An allocator that always succeeds, with zeroed blocks.\<close>

definition al_zero :: allocator where
  "al_zero n = Some (replicate n 0)"

text \<open>Two codecs whose compressor reports a failure: one returns 0, one a negative value.\<close>

definition lz4_fail_zero :: lz4 where
  "lz4_fail_zero = lz4_stored\<lparr>LZ4_compress := (\<lambda>src n. (0, []))\<rparr>"

definition lz4_fail_neg :: lz4 where
  "lz4_fail_neg = lz4_stored\<lparr>LZ4_compress := (\<lambda>src n. (- 5, []))\<rparr>"

section \<open>Definitions used in the proofs\<close>

subsection \<open>Writes to a buffer\<close>

definition writes :: "nat \<Rightarrow> (nat \<Rightarrow> 'a) \<Rightarrow> nat set \<Rightarrow> ('a list \<Rightarrow> 'a list) \<Rightarrow> bool" where
  "writes N V D F \<longleftrightarrow>
     (\<forall>out. length out = N \<longrightarrow>
        length (F out) = N \<and> (\<forall>p<N. F out ! p = (if p \<in> D then V p else out ! p)))"

definition steps_from :: "nat \<Rightarrow> nat \<Rightarrow> nat \<Rightarrow> nat \<Rightarrow> nat set" where
  "steps_from ii k n step = {j. (\<exists>q. j = ii + q * step) \<and> j + k < n}"

subsection \<open>Byte transpose within elements\<close>

definition V_byte_elem :: "buf \<Rightarrow> nat \<Rightarrow> nat \<Rightarrow> nat \<Rightarrow> byte" where
  "V_byte_elem in_b size' elem_size p = in_b ! ((p mod size') * elem_size + p div size')"

subsection \<open>Bit transpose within bytes\<close>

definition V_bit_byte :: "buf \<Rightarrow> nat \<Rightarrow> nat \<Rightarrow> byte" where
  "V_bit_byte in_b nbyte_bitrow p =
     ucast (drop_bit (8 * (p div nbyte_bitrow)) (TRANS_BIT_8X8 (load_u64 in_b (8 * (p mod nbyte_bitrow)))))"

definition delta_swap :: "nat \<Rightarrow> 64 word \<Rightarrow> 64 word \<Rightarrow> 64 word" where
  "delta_swap d m x = (let t = (x XOR drop_bit d x) AND m in x XOR t XOR push_bit d t)"

subsection \<open>Transposes of rows\<close>

text \<open>bshuf_trans_elem\<close>

definition V_trans_elem :: "buf \<Rightarrow> nat \<Rightarrow> nat \<Rightarrow> nat \<Rightarrow> nat \<Rightarrow> byte" where
  "V_trans_elem in_b lda ldb elem_size p =
     in_b ! (((p div elem_size) mod lda * ldb + (p div elem_size) div lda) * elem_size + p mod elem_size)"

subsection \<open>Bit shuffle within groups of eight elements\<close>


subsection \<open>Results of the scalar primitives\<close>

definition bitshuffled :: "buf \<Rightarrow> buf \<Rightarrow> nat \<Rightarrow> nat \<Rightarrow> bool" where
  "bitshuffled y x size' elem_size \<longleftrightarrow>
     (\<forall>g < size' div 8. \<forall>j<elem_size. \<forall>r<8. \<forall>k<8.
        bit (y ! ((j * 8 + r) * (size' div 8) + g)) k = bit (x ! ((8 * g + k) * elem_size + j)) r)"

subsection \<open>The block framework\<close>




section \<open>Lemmas\<close>

subsection \<open>Writes to a buffer\<close>

lemma writes_upd: "d < N \<Longrightarrow> v = V d \<Longrightarrow> writes N V {d} (\<lambda>out. out[d := v])"
  by (auto simp: writes_def nth_list_update)

lemma writes_id: "writes N V {} (\<lambda>out. out)"
  by (simp add: writes_def)

lemma writes_seq:
  assumes "writes N V D1 F" "writes N V D2 G"
  shows "writes N V (D1 \<union> D2) (\<lambda>out. G (F out))"
  using assms unfolding writes_def by auto

lemma writes_fold:
  assumes "\<And>t. t \<in> set ts \<Longrightarrow> writes N V (D t) (F t)"
  shows "writes N V (\<Union>t\<in>set ts. D t) (fold F ts)"
  using assms
proof (induction ts rule: rev_induct)
  case Nil
  then show ?case by (simp add: writes_def)
next
  case (snoc t ts)
  have a: "writes N V (\<Union>t\<in>set ts. D t) (fold F ts)" using snoc by simp
  have b: "writes N V (D t) (F t)" using snoc by simp
  have "writes N V ((\<Union>t\<in>set ts. D t) \<union> D t) (\<lambda>out. F t (fold F ts out))"
    by (rule writes_seq [OF a b])
  moreover have "(\<Union>t\<in>set ts. D t) \<union> D t = (\<Union>t\<in>set (ts @ [t]). D t)" by auto
  moreover have "(\<lambda>out. F t (fold F ts out)) = fold F (ts @ [t])" by (simp add: fun_eq_iff)
  ultimately show ?case by simp
qed

lemma writes_cong:
  "writes N V D F \<Longrightarrow> D \<inter> {..<N} = D' \<inter> {..<N} \<Longrightarrow> writes N V D' F"
  unfolding writes_def by (auto simp: set_eq_iff)

lemma writes_result:
  assumes "writes N V D F" "length out = N" "n \<le> N" "D \<inter> {..<N} = {..<n}"
  shows "F out = map V [0..<n] @ drop n out"
proof (rule nth_equalityI)
  show "length (F out) = length (map V [0..<n] @ drop n out)"
    using assms by (simp add: writes_def)
next
  fix p assume "p < length (F out)"
  then have p: "p < N" using assms by (simp add: writes_def)
  have "p \<in> D \<longleftrightarrow> p < n" using assms(4) p by (auto simp: set_eq_iff)
  then show "F out ! p = (map V [0..<n] @ drop n out) ! p"
    using assms p by (auto simp: writes_def nth_append)
qed

lemma steps_from_unfold:
  "ii + k < n \<Longrightarrow> 0 < step \<Longrightarrow> steps_from ii k n step = insert ii (steps_from (ii + step) k n step)"
proof -
  assume a: "ii + k < n" "0 < step"
  have "(\<exists>q. j = ii + q * step) \<longleftrightarrow> j = ii \<or> (\<exists>q. j = ii + step + q * step)" for j
  proof
    assume "\<exists>q. j = ii + q * step"
    then obtain q where q: "j = ii + q * step" by blast
    show "j = ii \<or> (\<exists>q. j = ii + step + q * step)"
    proof (cases q)
      case 0 then show ?thesis using q by simp
    next
      case (Suc q') then show ?thesis using q by auto
    qed
  next
    assume "j = ii \<or> (\<exists>q. j = ii + step + q * step)"
    then show "\<exists>q. j = ii + q * step"
    proof
      assume "j = ii" then have "j = ii + 0 * step" by simp
      then show ?thesis by blast
    next
      assume "\<exists>q. j = ii + step + q * step"
      then obtain q where "j = ii + step + q * step" by blast
      then have "j = ii + Suc q * step" by simp
      then show ?thesis by blast
    qed
  qed
  then show ?thesis using a unfolding steps_from_def by auto
qed

lemma steps_from_empty: "\<not> ii + k < n \<Longrightarrow> steps_from ii k n step = {}"
  unfolding steps_from_def by auto

lemma for_step_unfold:
  "ii + k < n \<Longrightarrow> 0 < step \<Longrightarrow>
   for_step ii k n step body s = for_step (ii + step) k n step body (body ii s)"
  by (rule trans [OF for_step.simps]) simp

lemma for_step_stop: "\<not> ii + k < n \<Longrightarrow> for_step ii k n step body s = s"
  by (rule trans [OF for_step.simps]) simp

lemma writes_for_step:
  assumes "0 < step"
    and "\<And>j. j \<in> steps_from ii k n step \<Longrightarrow> writes N V (D j) (body j)"
  shows "writes N V (\<Union>j\<in>steps_from ii k n step. D j) (for_step ii k n step body)"
  using assms(2)
proof (induction "n - (ii + k)" arbitrary: ii rule: less_induct)
  case less
  show ?case
  proof (cases "ii + k < n")
    case True
    have u: "steps_from ii k n step = insert ii (steps_from (ii + step) k n step)"
      using True assms(1) by (rule steps_from_unfold)
    have a: "writes N V (D ii) (body ii)" using less(2) u by simp
    have "n - (ii + step + k) < n - (ii + k)" using True assms(1) by arith
    then have b: "writes N V (\<Union>j\<in>steps_from (ii + step) k n step. D j) (for_step (ii + step) k n step body)"
      using less(1) [of "ii + step"] less(2) u by simp
    have "for_step ii k n step body = (\<lambda>s. for_step (ii + step) k n step body (body ii s))"
      using True assms(1) by (simp add: fun_eq_iff for_step_unfold)
    moreover have "(\<Union>j\<in>steps_from ii k n step. D j) = D ii \<union> (\<Union>j\<in>steps_from (ii + step) k n step. D j)"
      using u by simp
    ultimately show ?thesis using writes_seq [OF a b] by simp
  next
    case False
    have "for_step ii k n step body = (\<lambda>s. s)"
      using False by (simp add: fun_eq_iff for_step_stop)
    then show ?thesis using False by (simp add: steps_from_empty writes_id)
  qed
qed

lemma m8: "(i::nat) - i mod 8 = 8 * (i div 8)" by (simp add: minus_mod_eq_mult_div)

lemma L3: "\<not> (n - n mod 8 \<le> i) \<Longrightarrow> i - i mod 8 + 7 < (n::nat)"
proof -
  assume "\<not> (n - n mod 8 \<le> i)"
  then have "i < 8 * (n div 8)" by (simp add: m8)
  then have "i div 8 < n div 8" by (simp add: div_less_iff_less_mult mult.commute)
  then have "8 * (i div 8) + 8 \<le> 8 * (n div 8)" by simp
  also have "\<dots> \<le> n" by simp
  finally show ?thesis by (simp add: m8)
qed

lemma L2: "start mod 8 = 0 \<Longrightarrow> start \<le> i \<Longrightarrow> start \<le> i - i mod (8::nat)"
proof -
  assume a: "start mod 8 = 0" "start \<le> i"
  have "start = 8 * (start div 8)" using a(1) by (simp add: mod_eq_0_iff_dvd)
  also have "\<dots> \<le> 8 * (i div 8)" using a(2) by (simp add: div_le_mono)
  finally show ?thesis by (simp add: m8)
qed

lemma L5: "start mod 8 = 0 \<Longrightarrow> start \<le> j \<Longrightarrow> j mod 8 = 0 \<Longrightarrow> \<exists>q. j = start + q * (8::nat)"
proof -
  assume a: "start mod 8 = 0" "start \<le> j" "j mod 8 = 0"
  have "j = 8 * (j div 8)" "start = 8 * (start div 8)" using a by (simp_all add: mod_eq_0_iff_dvd)
  moreover have "start div 8 \<le> j div 8" using a(2) by (simp add: div_le_mono)
  ultimately have "j = start + (j div 8 - start div 8) * 8"
    by (metis diff_mult_distrib2 mult.commute le_add_diff_inverse mult_le_mono2)
  then show ?thesis by blast
qed

subsection \<open>Byte transpose within elements\<close>

lemma idx_lt: "i < (n::nat) \<Longrightarrow> j < m \<Longrightarrow> j * n + i < n * m"
proof -
  assume a: "i < n" "j < m"
  have "j * n + i < j * n + n" using a by simp
  also have "\<dots> = Suc j * n" by simp
  also have "\<dots> \<le> m * n" using a(2) by (intro mult_le_mono1) simp
  finally show ?thesis by (simp add: mult.commute)
qed

lemma idx_mod: "i < (n::nat) \<Longrightarrow> (j * n + i) mod n = i"
  by simp

lemma idx_div: "i < (n::nat) \<Longrightarrow> (j * n + i) div n = j"
  by simp

lemma steps_from_8:
  assumes "start mod 8 = 0"
  shows "steps_from start 7 n 8 = {j. start \<le> j \<and> j mod 8 = 0 \<and> j + 7 < n}"
proof -
  have "(\<exists>q. j = start + q * 8) \<longleftrightarrow> start \<le> j \<and> j mod 8 = 0" for j
    using assms L5 [of start j] by auto
  then show ?thesis unfolding steps_from_def by auto
qed

lemma trans_byte_elem_remainder_count:
  "start mod 8 = 0 \<Longrightarrow> fst (bshuf_trans_byte_elem_remainder in_b out_b size' elem_size start) = int (size' * elem_size)"
  by (simp add: bshuf_trans_byte_elem_remainder_def Let_def)

lemma trans_byte_elem_remainder_writes:
  assumes st: "start mod 8 = 0" and N: "size' * elem_size \<le> N"
  shows "writes N (V_byte_elem in_b size' elem_size) {p. p < size' * elem_size \<and> start \<le> p mod size'}
           (\<lambda>out_b. snd (bshuf_trans_byte_elem_remainder in_b out_b size' elem_size start))"
proof (cases "size' > start")
  case False
  have "{p. p < size' * elem_size \<and> start \<le> p mod size'} = {}"
  proof -
    { fix p assume "p < size' * elem_size"
      then have "0 < size'" by (cases size') auto
      then have "p mod size' < start" using False
        by (meson leI less_le_trans mod_less_divisor) }
    then show ?thesis by (auto simp: not_le)
  qed
  moreover have "(\<lambda>out_b. snd (bshuf_trans_byte_elem_remainder in_b out_b size' elem_size start)) = (\<lambda>out. out)"
    using False st by (simp add: bshuf_trans_byte_elem_remainder_def fun_eq_iff)
  ultimately show ?thesis by (simp only: writes_id)
next
  case True
  let ?V = "V_byte_elem in_b size' elem_size"
  let ?main = "for_step start 7 size' 8 (\<lambda>ii.
                      fold (\<lambda>jj. fold (\<lambda>kk out.
                        out[jj * size' + ii + kk := in_b ! (ii * elem_size + kk * elem_size + jj)])
                        [0..<8]) [0..<elem_size])"
  let ?tail = "fold (\<lambda>ii. fold (\<lambda>jj out.
                        out[jj * size' + ii := in_b ! (ii * elem_size + jj)])
                        [0..<elem_size]) [size' - size' mod 8..<size']"
  let ?Dm = "\<lambda>ii. (\<Union>jj\<in>set [0..<elem_size]. \<Union>kk\<in>set [0..<8]. {jj * size' + ii + kk})"
  let ?Dt = "\<lambda>ii. (\<Union>jj\<in>set [0..<elem_size]. {jj * size' + ii})"
  have main: "writes N ?V (\<Union>ii\<in>steps_from start 7 size' 8. ?Dm ii) ?main"
  proof (rule writes_for_step)
    show "0 < (8::nat)" by simp
  next
    fix ii assume "ii \<in> steps_from start 7 size' 8"
    then have ii: "ii + 7 < size'" by (simp add: steps_from_def)
    show "writes N ?V (?Dm ii) (fold (\<lambda>jj. fold (\<lambda>kk out.
                        out[jj * size' + ii + kk := in_b ! (ii * elem_size + kk * elem_size + jj)])
                        [0..<8]) [0..<elem_size])"
    proof (intro writes_fold writes_upd)
      fix jj kk assume "jj \<in> set [0..<elem_size]" "kk \<in> set [0..<8]"
      then have jk: "jj < elem_size" "ii + kk < size'" using ii by auto
      have "jj * size' + (ii + kk) < size' * elem_size" using jk by (intro idx_lt)
      then show "jj * size' + ii + kk < N" using N by simp
      have "(jj * size' + (ii + kk)) mod size' = ii + kk" "(jj * size' + (ii + kk)) div size' = jj"
        using jk by simp_all
      then show "in_b ! (ii * elem_size + kk * elem_size + jj) = ?V (jj * size' + ii + kk)"
        by (simp add: V_byte_elem_def add.assoc add_mult_distrib)
    qed
  qed
  have tail: "writes N ?V (\<Union>ii\<in>set [size' - size' mod 8..<size']. ?Dt ii) ?tail"
  proof (intro writes_fold writes_upd)
    fix ii jj assume "ii \<in> set [size' - size' mod 8..<size']" "jj \<in> set [0..<elem_size]"
    then have jk: "jj < elem_size" "ii < size'" by auto
    have "jj * size' + ii < size' * elem_size" using jk by (intro idx_lt)
    then show "jj * size' + ii < N" using N by simp
    show "in_b ! (ii * elem_size + jj) = ?V (jj * size' + ii)"
      using jk by (simp add: V_byte_elem_def)
  qed
  have both: "writes N ?V ((\<Union>ii\<in>steps_from start 7 size' 8. ?Dm ii) \<union> (\<Union>ii\<in>set [size' - size' mod 8..<size']. ?Dt ii))
     (\<lambda>out. ?tail (?main out))"
    by (rule writes_seq [OF main tail])
  have fn: "(\<lambda>out_b. snd (bshuf_trans_byte_elem_remainder in_b out_b size' elem_size start)) = (\<lambda>out. ?tail (?main out))"
    using True st by (simp add: bshuf_trans_byte_elem_remainder_def Let_def fun_eq_iff)
  have sets: "((\<Union>ii\<in>steps_from start 7 size' 8. ?Dm ii) \<union> (\<Union>ii\<in>set [size' - size' mod 8..<size']. ?Dt ii))
      = {p. p < size' * elem_size \<and> start \<le> p mod size'}" (is "?L = ?R")
  proof (intro set_eqI iffI)
    fix p assume "p \<in> ?L"
    then consider (m) ii jj kk where "ii \<in> steps_from start 7 size' 8" "jj < elem_size" "kk < 8" "p = jj * size' + ii + kk"
      | (t) ii jj where "size' - size' mod 8 \<le> ii" "ii < size'" "jj < elem_size" "p = jj * size' + ii"
      by auto
    then show "p \<in> ?R"
    proof cases
      case m
      then have i: "ii + kk < size'" "start \<le> ii + kk" by (auto simp: steps_from_8 [OF st])
      then have "jj * size' + (ii + kk) < size' * elem_size" "(jj * size' + (ii + kk)) mod size' = ii + kk"
        using m(2) idx_lt by simp_all
      then show ?thesis using m i by (simp add: add.assoc)
    next
      case t
      have "start \<le> size' - size' mod 8" using True st L2 [of start size'] by simp
      then have "start \<le> ii" using t by simp
      then show ?thesis using t idx_lt [of ii size' jj elem_size] by simp
    qed
  next
    fix p assume "p \<in> ?R"
    then have p: "p < size' * elem_size" "start \<le> p mod size'" by auto
    then have s0: "0 < size'" by (cases size') auto
    define i where "i = p mod size'"
    define jj where "jj = p div size'"
    have pe: "p = jj * size' + i" by (simp add: i_def jj_def)
    have jj: "jj < elem_size" using p(1) by (simp add: jj_def less_mult_imp_div_less mult.commute)
    have i: "i < size'" "start \<le> i" using s0 p by (simp_all add: i_def)
    show "p \<in> ?L"
    proof (cases "size' - size' mod 8 \<le> i")
      case True
      then have "i \<in> set [size' - size' mod 8..<size']" using i by simp
      moreover have "p \<in> ?Dt i" by (rule UN_I [of jj]) (use jj pe in simp_all)
      ultimately show ?thesis by blast
    next
      case False
      define ii where "ii = i - i mod 8"
      have a: "ii mod 8 = 0" unfolding ii_def by (simp add: m8)
      have b: "start \<le> ii" unfolding ii_def by (rule L2 [OF st i(2)])
      have c: "ii + 7 < size'" unfolding ii_def by (rule L3 [OF False])
      have d: "i = ii + i mod 8" unfolding ii_def by simp
      have "ii \<in> steps_from start 7 size' 8" using a b c by (simp add: steps_from_8 [OF st])
      moreover have "i mod 8 \<in> set [0..<8]" "jj \<in> set [0..<elem_size]" using jj by simp_all
      then have "p \<in> ?Dm ii" using pe d by (metis (no_types, lifting) UN_I add.assoc singletonI)
      ultimately show ?thesis by blast
    qed
  qed
  show ?thesis unfolding fn using both unfolding sets .
qed

subsection \<open>Bit transpose within bytes\<close>

lemma upt_0_8: "[0..<8] = [0,1,2,3,4,5,6,7::nat]"
  by (simp add: upt_rec)

lemma store_rows_fold:
  "store_rows dst x = fold (\<lambda>kk out. out[dst kk := ucast (drop_bit (8 * kk) x)]) [0..<8]"
  by (simp add: store_rows_def fun_eq_iff upt_0_8 drop_bit_drop_bit del: upt_Suc)

lemma writes_store_rows:
  assumes "\<And>kk. kk < 8 \<Longrightarrow> dst kk < N \<and> ucast (drop_bit (8 * kk) x) = V (dst kk)"
  shows "writes N V (\<Union>kk\<in>set [0..<8]. {dst kk}) (store_rows dst x)"
  unfolding store_rows_fold
  by (intro writes_fold writes_upd) (use assms in auto)

lemma trans_bit_byte_remainder_count:
  "(elem_size * size') mod 8 = 0 \<Longrightarrow> start_byte mod 8 = 0 \<Longrightarrow>
   fst (bshuf_trans_bit_byte_remainder in_b out_b size' elem_size start_byte) = int (size' * elem_size)"
  by (simp add: bshuf_trans_bit_byte_remainder_def Let_def)

lemma trans_bit_byte_remainder_writes:
  assumes nb: "(elem_size * size') mod 8 = 0" and st: "start_byte mod 8 = 0"
    and N: "elem_size * size' \<le> N"
  shows "writes N (V_bit_byte in_b (elem_size * size' div 8))
           {p. p < elem_size * size' \<and> start_byte div 8 \<le> p mod (elem_size * size' div 8)}
           (\<lambda>out_b. snd (bshuf_trans_bit_byte_remainder in_b out_b size' elem_size start_byte))"
proof -
  define nbr where "nbr = elem_size * size' div 8"
  have nbyte: "elem_size * size' = nbr * 8" using nb by (simp add: nbr_def mod_eq_0_iff_dvd)
  let ?V = "V_bit_byte in_b nbr"
  let ?body = "\<lambda>ii out. store_rows (\<lambda>kk. kk * nbr + ii) (TRANS_BIT_8X8 (load_u64 in_b (8 * ii))) out"
  let ?D = "\<lambda>ii. (\<Union>kk\<in>set [0..<8]. {kk * nbr + ii})"
  have fn: "(\<lambda>out_b. snd (bshuf_trans_bit_byte_remainder in_b out_b size' elem_size start_byte))
      = fold ?body [start_byte div 8..<nbr]"
    using nb st by (simp add: bshuf_trans_bit_byte_remainder_def Let_def fun_eq_iff nbr_def)
  have w: "writes N ?V (\<Union>ii\<in>set [start_byte div 8..<nbr]. ?D ii) (fold ?body [start_byte div 8..<nbr])"
  proof (intro writes_fold writes_store_rows)
    fix ii kk :: nat assume "ii \<in> set [start_byte div 8..<nbr]" "kk < 8"
    then have ii: "ii < nbr" by simp
    have "kk * nbr + ii < nbr * 8" using ii \<open>kk < 8\<close> by (rule idx_lt)
    then have a: "kk * nbr + ii < N" using N nbyte by simp
    have "(kk * nbr + ii) mod nbr = ii" "(kk * nbr + ii) div nbr = kk" using ii by simp_all
    then have b: "ucast (drop_bit (8 * kk) (TRANS_BIT_8X8 (load_u64 in_b (8 * ii)))) = ?V (kk * nbr + ii)"
      by (simp add: V_bit_byte_def)
    show "kk * nbr + ii < N \<and> ucast (drop_bit (8 * kk) (TRANS_BIT_8X8 (load_u64 in_b (8 * ii)))) = ?V (kk * nbr + ii)"
      using a b by simp
  qed
  have sets: "(\<Union>ii\<in>set [start_byte div 8..<nbr]. ?D ii) = {p. p < nbr * 8 \<and> start_byte div 8 \<le> p mod nbr}"
    (is "?L = ?R")
  proof (intro set_eqI iffI)
    fix p assume "p \<in> ?L"
    then obtain ii kk where h: "start_byte div 8 \<le> ii" "ii < nbr" "kk < 8" "p = kk * nbr + ii" by auto
    then have "p < nbr * 8" "p mod nbr = ii" using idx_lt [of ii nbr kk 8] by simp_all
    then show "p \<in> ?R" using h by simp
  next
    fix p assume "p \<in> ?R"
    then have p: "p < nbr * 8" "start_byte div 8 \<le> p mod nbr" by auto
    then have n0: "0 < nbr" by (cases nbr) auto
    have k: "p div nbr < 8" using p(1) by (simp add: less_mult_imp_div_less)
    have "p mod nbr \<in> set [start_byte div 8..<nbr]" using p(2) n0 by simp
    moreover have "p \<in> ?D (p mod nbr)" by (rule UN_I [of "p div nbr"]) (use k in simp_all)
    ultimately show "p \<in> ?L" by blast
  qed
  show ?thesis unfolding fn using w unfolding sets nbyte nbr_def [symmetric] by simp
qed

lemma all_less_8:
  "(\<forall>n<8. P n) \<longleftrightarrow> P 0 \<and> P 1 \<and> P 2 \<and> P 3 \<and> P 4 \<and> P 5 \<and> P 6 \<and> P (7::nat)"
proof -
  have "(\<forall>n<8. P n) \<longleftrightarrow> (\<forall>n \<in> set [0..<8]. P n)" by auto
  also have "\<dots> \<longleftrightarrow> P 0 \<and> P 1 \<and> P 2 \<and> P 3 \<and> P 4 \<and> P 5 \<and> P 6 \<and> P 7"
    unfolding upt_0_8 by simp
  finally show ?thesis .
qed

lemma bit_byte_high: "8 \<le> n \<Longrightarrow> bit (w :: byte) n = False"
  by (auto dest: bit_imp_le_length)

lemma bit_load_u64_all:
  "\<forall>k<8. \<forall>r<8. bit (load_u64 b off) (8 * k + r) = bit (b ! (off + k)) r"
  unfolding all_less_8 load_u64_def
  by (simp add: bit_simps bit_byte_high numeral_2_eq_2)

lemma bit_load_u64:
  "k < 8 \<Longrightarrow> r < 8 \<Longrightarrow> bit (load_u64 b off) (8 * k + r) = bit (b ! (off + k)) r"
  using bit_load_u64_all by blast

lemma TRANS_BIT_8X8_stages:
  "TRANS_BIT_8X8 x = delta_swap 28 0x00000000F0F0F0F0 (delta_swap 14 0x0000CCCC0000CCCC (delta_swap 7 0x00AA00AA00AA00AA x))"
  by (simp add: TRANS_BIT_8X8_def delta_swap_def Let_def)

lemma stage1:
  "\<forall>r<8. \<forall>k<8. bit (delta_swap 7 0x00AA00AA00AA00AA x) (8 * r + k)
      = bit x (8 * (r - r mod 2 + k mod 2) + (k - k mod 2 + r mod 2))"
  unfolding all_less_8 delta_swap_def Let_def
  apply (simp add: bit_simps)
  apply (intro conjI; (simp only: numeral_2_eq_2 numeral_3_eq_3)?; blast)
  done

lemma stage2:
  "\<forall>r<8. \<forall>k<8. bit (delta_swap 14 0x0000CCCC0000CCCC x) (8 * r + k)
      = bit x (8 * (r - 2 * (r div 2 mod 2) + 2 * (k div 2 mod 2)) + (k - 2 * (k div 2 mod 2) + 2 * (r div 2 mod 2)))"
  unfolding all_less_8 delta_swap_def Let_def
  apply (simp add: bit_simps)
  apply (intro conjI; (simp only: numeral_2_eq_2 numeral_3_eq_3)?; blast)
  done

lemma stage3:
  "\<forall>r<8. \<forall>k<8. bit (delta_swap 28 0x00000000F0F0F0F0 x) (8 * r + k)
      = bit x (8 * (r mod 4 + 4 * (k div 4)) + (k mod 4 + 4 * (r div 4)))"
  unfolding all_less_8 delta_swap_def Let_def
  apply (simp add: bit_simps)
  apply (intro conjI; (simp only: numeral_2_eq_2 numeral_3_eq_3)?; blast)
  done

lemma perm_bounds:
  "\<forall>r<8. \<forall>k<8. r mod 4 + 4 * (k div 4) < (8::nat) \<and> k mod 4 + 4 * (r div 4) < 8
     \<and> r - 2 * (r div 2 mod 2) + 2 * (k div 2 mod 2) < 8 \<and> k - 2 * (k div 2 mod 2) + 2 * (r div 2 mod 2) < 8"
  unfolding all_less_8 by simp

lemma perm_compose:
  "\<forall>r<8. \<forall>k<8.
     (let r3 = r mod 4 + 4 * (k div 4); k3 = k mod 4 + 4 * (r div 4);
          r2 = r3 - 2 * (r3 div 2 mod 2) + 2 * (k3 div 2 mod 2);
          k2 = k3 - 2 * (k3 div 2 mod 2) + 2 * (r3 div 2 mod 2)
      in r2 - r2 mod 2 + k2 mod 2 = k \<and> k2 - k2 mod 2 + r2 mod 2 = (r::nat))"
  unfolding all_less_8 Let_def by simp

lemma bit_TRANS_BIT_8X8:
  assumes "r < 8" "k < 8"
  shows "bit (TRANS_BIT_8X8 x) (8 * r + k) = bit x (8 * k + r)"
proof -
  define r3 where "r3 = r mod 4 + 4 * (k div 4)"
  define k3 where "k3 = k mod 4 + 4 * (r div 4)"
  define r2 where "r2 = r3 - 2 * (r3 div 2 mod 2) + 2 * (k3 div 2 mod 2)"
  define k2 where "k2 = k3 - 2 * (k3 div 2 mod 2) + 2 * (r3 div 2 mod 2)"
  have b3: "r3 < 8" "k3 < 8" using perm_bounds assms unfolding r3_def k3_def by blast+
  have b2: "r2 < 8" "k2 < 8" using perm_bounds b3 unfolding r2_def k2_def by blast+
  have fin: "r2 - r2 mod 2 + k2 mod 2 = k" "k2 - k2 mod 2 + r2 mod 2 = r"
    using perm_compose assms unfolding r2_def k2_def r3_def k3_def Let_def by blast+
  let ?s1 = "delta_swap 7 0x00AA00AA00AA00AA x"
  let ?s2 = "delta_swap 14 0x0000CCCC0000CCCC ?s1"
  have "bit (TRANS_BIT_8X8 x) (8 * r + k) = bit ?s2 (8 * r3 + k3)"
    unfolding TRANS_BIT_8X8_stages r3_def k3_def using stage3 assms by blast
  also have "\<dots> = bit ?s1 (8 * r2 + k2)"
    unfolding r2_def k2_def using stage2 b3 by blast
  also have "\<dots> = bit x (8 * (r2 - r2 mod 2 + k2 mod 2) + (k2 - k2 mod 2 + r2 mod 2))"
    using stage1 b2 by blast
  finally show ?thesis unfolding fin .
qed

lemma bit_V_bit_byte:
  assumes "p < nbr * 8" "k < 8"
  shows "bit (V_bit_byte in_b nbr p) k = bit (in_b ! (8 * (p mod nbr) + k)) (p div nbr)"
proof -
  have r: "p div nbr < 8" using assms(1) by (simp add: less_mult_imp_div_less)
  have "bit (V_bit_byte in_b nbr p) k = bit (TRANS_BIT_8X8 (load_u64 in_b (8 * (p mod nbr)))) (8 * (p div nbr) + k)"
    using assms(2) by (simp add: V_bit_byte_def bit_simps add.commute)
  also have "\<dots> = bit (load_u64 in_b (8 * (p mod nbr))) (8 * k + p div nbr)"
    using r assms(2) by (rule bit_TRANS_BIT_8X8)
  also have "\<dots> = bit (in_b ! (8 * (p mod nbr) + k)) (p div nbr)"
    using assms(2) r by (rule bit_load_u64)
  finally show ?thesis .
qed

subsection \<open>Transposes of rows\<close>

lemma V_byte_elem_at: "i < size' \<Longrightarrow> V_byte_elem in_b size' elem_size (j * size' + i) = in_b ! (i * elem_size + j)"
  by (simp add: V_byte_elem_def)

lemma bit_V_bit_byte_at:
  assumes "ii < nbr" "kk < 8" "k < 8"
  shows "bit (V_bit_byte in_b nbr (kk * nbr + ii)) k = bit (in_b ! (8 * ii + k)) kk"
proof -
  have "kk * nbr + ii < nbr * 8" using assms(1,2) by (rule idx_lt)
  then show ?thesis using assms by (simp add: bit_V_bit_byte)
qed

lemma V_trans_elem_at:
  assumes "ii < lda" "t < elem_size"
  shows "V_trans_elem in_b lda ldb elem_size ((jj * lda + ii) * elem_size + t) = in_b ! ((ii * ldb + jj) * elem_size + t)"
proof -
  have a: "((jj * lda + ii) * elem_size + t) div elem_size = jj * lda + ii"
    "((jj * lda + ii) * elem_size + t) mod elem_size = t"
    using assms(2) by simp_all
  have b: "(jj * lda + ii) mod lda = ii" "(jj * lda + ii) div lda = jj" using assms(1) by simp_all
  show ?thesis unfolding V_trans_elem_def a b ..
qed

lemma trans_elem_writes:
  assumes N: "lda * ldb * elem_size \<le> N"
  shows "writes N (V_trans_elem in_b lda ldb elem_size) {..<lda * ldb * elem_size}
           (\<lambda>out_b. snd (bshuf_trans_elem in_b out_b lda ldb elem_size))"
proof -
  let ?V = "V_trans_elem in_b lda ldb elem_size"
  let ?D = "\<lambda>ii. (\<Union>jj\<in>set [0..<ldb]. \<Union>t\<in>set [0..<elem_size]. {(jj * lda + ii) * elem_size + t})"
  have lt: "(jj * lda + ii) * elem_size + t < lda * ldb * elem_size"
    if "ii < lda" "jj < ldb" "t < elem_size" for ii jj t
  proof -
    have "jj * lda + ii < lda * ldb" using that(1,2) by (rule idx_lt)
    then have "(jj * lda + ii) * elem_size + t < elem_size * (lda * ldb)" using that(3) idx_lt by blast
    then show ?thesis by (simp add: mult.commute)
  qed
  have fn: "(\<lambda>out_b. snd (bshuf_trans_elem in_b out_b lda ldb elem_size))
     = fold (\<lambda>ii. fold (\<lambda>jj. fold (\<lambda>t d. d[(jj * lda + ii) * elem_size + t := in_b ! ((ii * ldb + jj) * elem_size + t)])
            [0..<elem_size]) [0..<ldb]) [0..<lda]"
    by (simp add: bshuf_trans_elem_def memcpy_def fun_eq_iff)
  have w: "writes N ?V (\<Union>ii\<in>set [0..<lda]. ?D ii)
     (fold (\<lambda>ii. fold (\<lambda>jj. fold (\<lambda>t d. d[(jj * lda + ii) * elem_size + t := in_b ! ((ii * ldb + jj) * elem_size + t)])
            [0..<elem_size]) [0..<ldb]) [0..<lda])"
  proof (intro writes_fold writes_upd)
    fix ii jj t assume "ii \<in> set [0..<lda]" "jj \<in> set [0..<ldb]" "t \<in> set [0..<elem_size]"
    then have h: "ii < lda" "jj < ldb" "t < elem_size" by simp_all
    show "(jj * lda + ii) * elem_size + t < N" using lt [OF h] N by simp
    show "in_b ! ((ii * ldb + jj) * elem_size + t) = ?V ((jj * lda + ii) * elem_size + t)"
      using h by (simp add: V_trans_elem_at)
  qed
  have sets: "(\<Union>ii\<in>set [0..<lda]. ?D ii) = {..<lda * ldb * elem_size}" (is "?L = ?R")
  proof (intro set_eqI iffI)
    fix p assume "p \<in> ?L"
    then obtain ii jj t where "ii < lda" "jj < ldb" "t < elem_size" "p = (jj * lda + ii) * elem_size + t"
      by auto
    then show "p \<in> ?R" using lt by simp
  next
    fix p assume "p \<in> ?R"
    then have p: "p < lda * ldb * elem_size" by simp
    have e0: "0 < elem_size" using p by (cases elem_size) simp_all
    have l0: "0 < lda" using p by (cases lda) simp_all
    define q where "q = p div elem_size"
    have q: "q < lda * ldb" using p unfolding q_def by (simp add: less_mult_imp_div_less)
    have jj: "q div lda < ldb" using q by (simp add: less_mult_imp_div_less mult.commute)
    have pe: "p = (q div lda * lda + q mod lda) * elem_size + p mod elem_size" by (simp add: q_def)
    have "q mod lda \<in> set [0..<lda]" using l0 by simp
    moreover have "p \<in> ?D (q mod lda)"
      by (rule UN_I [of "q div lda"], use jj in simp, rule UN_I [of "p mod elem_size"], use e0 in simp, use pe in simp)
    ultimately show "p \<in> ?L" by blast
  qed
  show ?thesis unfolding fn using w unfolding sets .
qed


subsection \<open>Bit shuffle within groups of eight elements\<close>








subsection \<open>Results of the scalar primitives\<close>

lemma trans_byte_elem_scal_result:
  assumes "length out_b = N" "size' * elem_size \<le> N"
  shows "bshuf_trans_byte_elem_scal in_b out_b size' elem_size
     = (int (size' * elem_size), map (V_byte_elem in_b size' elem_size) [0..<size' * elem_size] @ drop (size' * elem_size) out_b)"
proof -
  have w: "writes N (V_byte_elem in_b size' elem_size) {p. p < size' * elem_size \<and> 0 \<le> p mod size'}
           (\<lambda>out_b. snd (bshuf_trans_byte_elem_remainder in_b out_b size' elem_size 0))"
    by (rule trans_byte_elem_remainder_writes) (use assms in simp_all)
  have "snd (bshuf_trans_byte_elem_remainder in_b out_b size' elem_size 0)
      = map (V_byte_elem in_b size' elem_size) [0..<size' * elem_size] @ drop (size' * elem_size) out_b"
    by (rule writes_result [OF w assms]) (use assms in auto)
  moreover have "fst (bshuf_trans_byte_elem_remainder in_b out_b size' elem_size 0) = int (size' * elem_size)"
    by (rule trans_byte_elem_remainder_count) simp
  ultimately show ?thesis unfolding bshuf_trans_byte_elem_scal_def by (simp add: prod_eq_iff)
qed

lemma trans_bit_byte_scal_result:
  assumes "length out_b = N" "size' * elem_size \<le> N" "(elem_size * size') mod 8 = 0"
  shows "bshuf_trans_bit_byte_scal in_b out_b size' elem_size
     = (int (size' * elem_size), map (V_bit_byte in_b (elem_size * size' div 8)) [0..<size' * elem_size] @ drop (size' * elem_size) out_b)"
proof -
  have N: "elem_size * size' \<le> N" using assms(2) by (simp add: mult.commute)
  have w: "writes N (V_bit_byte in_b (elem_size * size' div 8))
           {p. p < elem_size * size' \<and> 0 div 8 \<le> p mod (elem_size * size' div 8)}
           (\<lambda>out_b. snd (bshuf_trans_bit_byte_remainder in_b out_b size' elem_size 0))"
    by (rule trans_bit_byte_remainder_writes [OF assms(3) _ N]) simp
  have "snd (bshuf_trans_bit_byte_remainder in_b out_b size' elem_size 0)
      = map (V_bit_byte in_b (elem_size * size' div 8)) [0..<size' * elem_size] @ drop (size' * elem_size) out_b"
    by (rule writes_result [OF w assms(1,2)]) (use assms in \<open>auto simp: mult.commute\<close>)
  moreover have "fst (bshuf_trans_bit_byte_remainder in_b out_b size' elem_size 0) = int (size' * elem_size)"
    by (rule trans_bit_byte_remainder_count [OF assms(3)]) simp
  ultimately show ?thesis unfolding bshuf_trans_bit_byte_scal_def by (simp add: prod_eq_iff)
qed

lemma trans_elem_result:
  assumes "length out_b = N" "lda * ldb * elem_size \<le> N"
  shows "bshuf_trans_elem in_b out_b lda ldb elem_size
     = (int (lda * ldb * elem_size), map (V_trans_elem in_b lda ldb elem_size) [0..<lda * ldb * elem_size] @ drop (lda * ldb * elem_size) out_b)"
proof -
  have "snd (bshuf_trans_elem in_b out_b lda ldb elem_size)
      = map (V_trans_elem in_b lda ldb elem_size) [0..<lda * ldb * elem_size] @ drop (lda * ldb * elem_size) out_b"
    by (rule writes_result [OF trans_elem_writes [OF assms(2)] assms]) (use assms in auto)
  moreover have "fst (bshuf_trans_elem in_b out_b lda ldb elem_size) = int (lda * ldb * elem_size)"
    by (simp add: bshuf_trans_elem_def)
  ultimately show ?thesis by (simp add: prod_eq_iff)
qed



lemma nth_map_upt_append: "p < n \<Longrightarrow> (map V [0..<n] @ rest) ! p = V p"
  by (simp add: nth_append)

lemma trans_bit_elem_scal_result:
  assumes s8: "size' mod 8 = 0" and al: "al (size' * elem_size) = Some tmp"
    and lt: "length tmp = size' * elem_size" and lo: "length out_b = N" and N: "size' * elem_size \<le> N"
  shows "\<exists>y. bshuf_trans_bit_elem_scal al x out_b size' elem_size = (int (size' * elem_size), y)
            \<and> length y = N \<and> drop (size' * elem_size) y = drop (size' * elem_size) out_b
            \<and> bitshuffled y x size' elem_size"
proof -
  define c where "c = size' div 8"
  define n where "n = size' * elem_size"
  have sz: "size' = 8 * c" using s8 by (simp add: c_def mod_eq_0_iff_dvd)
  have n8: "(elem_size * size') mod 8 = 0" by (simp add: sz)
  have nbr: "elem_size * size' div 8 = elem_size * c" by (simp add: sz)
  have n_eq: "n = 8 * elem_size * c" by (simp add: n_def sz)
  define out1 where "out1 = map (V_byte_elem x size' elem_size) [0..<n] @ drop n out_b"
  define tmp1 where "tmp1 = map (V_bit_byte out1 (elem_size * c)) [0..<n] @ drop n tmp"
  define y where "y = map (V_trans_elem tmp1 8 elem_size c) [0..<n] @ drop n out1"
  have l1: "length out1 = N" using lo N by (simp add: out1_def n_def)
  have A: "bshuf_trans_byte_elem_scal x out_b size' elem_size = (int n, out1)"
    unfolding out1_def n_def by (rule trans_byte_elem_scal_result [OF lo N])
  have B: "bshuf_trans_bit_byte_scal out1 tmp size' elem_size = (int n, tmp1)"
    unfolding tmp1_def n_def nbr [symmetric] by (rule trans_bit_byte_scal_result [OF lt _ n8]) simp
  have C: "bshuf_trans_elem tmp1 out1 8 elem_size c = (int n, y)"
    using trans_elem_result [of out1 N 8 elem_size c tmp1] l1 N by (simp add: y_def n_eq n_def [symmetric])
  have run: "bshuf_trans_bit_elem_scal al x out_b size' elem_size = (int n, y)"
    using s8 al A B C by (simp add: bshuf_trans_bit_elem_scal_def bshuf_trans_bitrow_eight_def Let_def c_def)
  have ly: "length y = N" using l1 N by (simp add: y_def n_def)
  have dy: "drop n y = drop n out_b" using l1 lo N by (simp add: y_def out1_def n_def)
  have bits: "bit (y ! ((j * 8 + r) * c + g)) k = bit (x ! ((8 * g + k) * elem_size + j)) r"
    if h: "g < c" "j < elem_size" "r < 8" "k < 8" for g j r k
  proof -
    have i1: "(j * 8 + r) * c + g < n"
    proof -
      have "j * 8 + r < 8 * elem_size" using h(3,2) by (rule idx_lt)
      then have "(j * 8 + r) * c + g < c * (8 * elem_size)" using h(1) idx_lt by blast
      then show ?thesis by (simp add: n_eq mult.commute mult.left_commute)
    qed
    have i2: "(r * elem_size + j) * c + g < n"
    proof -
      have "r * elem_size + j < elem_size * 8" using h(2,3) by (rule idx_lt)
      then have "(r * elem_size + j) * c + g < c * (elem_size * 8)" using h(1) idx_lt by blast
      then show ?thesis by (simp add: n_eq mult.commute mult.left_commute)
    qed
    have i3: "j * c + g < elem_size * c" using idx_lt [OF h(1,2)] by (simp add: mult.commute)
    have i4: "8 * g + k < size'" using idx_lt [OF h(4,1)] by (simp add: sz mult.commute)
    have i5: "j * size' + (8 * g + k) < n" using idx_lt [OF i4 h(2)] by (simp add: n_def)
    have "y ! ((j * 8 + r) * c + g) = V_trans_elem tmp1 8 elem_size c ((j * 8 + r) * c + g)"
      unfolding y_def using i1 by (rule nth_map_upt_append)
    also have "\<dots> = tmp1 ! ((r * elem_size + j) * c + g)"
      using h(3,1) by (rule V_trans_elem_at)
    also have "\<dots> = V_bit_byte out1 (elem_size * c) ((r * elem_size + j) * c + g)"
      unfolding tmp1_def using i2 by (rule nth_map_upt_append)
    finally have "bit (y ! ((j * 8 + r) * c + g)) k = bit (V_bit_byte out1 (elem_size * c) (r * (elem_size * c) + (j * c + g))) k"
      by (simp add: add_mult_distrib mult.assoc add.assoc)
    also have "\<dots> = bit (out1 ! (8 * (j * c + g) + k)) r"
      using i3 h(3,4) by (rule bit_V_bit_byte_at)
    also have "out1 ! (8 * (j * c + g) + k) = out1 ! (j * size' + (8 * g + k))"
      by (simp add: sz algebra_simps)
    also have "out1 ! (j * size' + (8 * g + k)) = V_byte_elem x size' elem_size (j * size' + (8 * g + k))"
      unfolding out1_def using i5 by (rule nth_map_upt_append)
    also have "\<dots> = x ! ((8 * g + k) * elem_size + j)"
      using i4 by (rule V_byte_elem_at)
    finally show ?thesis .
  qed
  have "bitshuffled y x size' elem_size" unfolding bitshuffled_def c_def [symmetric] using bits by blast
  then show ?thesis using run ly dy unfolding n_def by blast
qed


subsection \<open>The block framework\<close>





lemma at_ptr_nat [simp]: "at_ptr m (int i) = drop i m"
  by (simp add: at_ptr_def)

lemma store_at_nat [simp]: "store_at m (int i) v = take i m @ v"
  by (simp add: store_at_def)








lemma chain_upd_id:
  "next_in C = a \<Longrightarrow> next_out C = b \<Longrightarrow> C\<lparr>next_in := a, next_out := b, out_mem := out_mem C\<rparr> = C"
  by simp











subsection \<open>The LZ4 block workers\<close>

lemma chain_simps:
  "in_mem (ioc_set_next_in C p) = in_mem C" "out_mem (ioc_set_next_in C p) = out_mem C"
  "in_mem (ioc_set_next_out C p) = in_mem C" "out_mem (ioc_set_next_out C p) = out_mem C"
  "next_in (ioc_set_next_in C p) = p" "next_out (ioc_set_next_out C p) = p"
  "next_in (ioc_set_next_out C p) = next_in C" "next_out (ioc_set_next_in C p) = next_out C"
  "ioc_get_in C = next_in C" "ioc_get_out C = next_out C"
  by (simp_all add: ioc_set_next_in_def ioc_set_next_out_def ioc_get_in_def ioc_get_out_def)

lemma at_ptr_0: "at_ptr m 0 = m"
  by (simp add: at_ptr_def)

lemma stored_shuffle_8:
  "\<exists>y. bshuf_trans_bit_elem al_zero (at_ptr (in_mem (ioc_init [0, 1, 2, 3, 4, 5, 6, 7] (replicate 16 0)))
            (ioc_get_in (ioc_init [0, 1, 2, 3, 4, 5, 6, 7] (replicate 16 0)))) (replicate 8 0) 8 1 = (8, y)"
proof -
  have "\<exists>y. bshuf_trans_bit_elem_scal al_zero [0, 1, 2, 3, 4, 5, 6, 7] (replicate 8 0) 8 1 = (int (8 * 1), y)
            \<and> length y = 8 \<and> drop (8 * 1) y = drop (8 * 1) (replicate 8 0)
            \<and> bitshuffled y [0, 1, 2, 3, 4, 5, 6, 7] 8 1"
    by (rule trans_bit_elem_scal_result [where tmp = "replicate 8 0"]) (simp_all add: al_zero_def)
  then show ?thesis by (auto simp: bshuf_trans_bit_elem_def ioc_init_def chain_simps at_ptr_0)
qed

lemma read_header_4: "bshuf_read_uint32_BE [0, 0, 0, 4, 1, 2, 3, 4] = 4"
  by (simp add: bshuf_read_uint32_BE_def)

lemma read_header_9: "bshuf_read_uint32_BE [0, 0, 0, 9, 1, 2, 3, 4, 5, 6, 7, 8] = 9"
  by (simp add: bshuf_read_uint32_BE_def)

lemma sint32: "sint (w::32 word) = (if uint w < 2 ^ 31 then uint w else uint w - 2 ^ 32)"
proof -
  have b: "0 \<le> uint w" "uint w < 4294967296" using uint_lt2p [of w] by simp_all
  have s: "sint w = (uint w + 2147483648) mod 4294967296 - 2147483648"
    by (simp add: sint_uint signed_take_bit_eq_take_bit_shift take_bit_eq_mod)
  show ?thesis
  proof (cases "uint w < 2 ^ 31")
    case True
    then have "(uint w + 2147483648) mod 4294967296 = uint w + 2147483648"
      using b by (simp add: mod_pos_pos_trivial)
    then show ?thesis using True s by simp
  next
    case False
    have "(uint w + 2147483648) mod 4294967296 = (uint w + 2147483648 - 4294967296) mod 4294967296"
      by (rule mod_pos_geq) (use False in simp_all)
    also have "\<dots> = uint w + 2147483648 - 4294967296"
      by (rule mod_pos_pos_trivial) (use False b in simp_all)
    finally show ?thesis using False s by simp
  qed
qed

lemma decompress_block_next_in:
  "next_in (snd (bshuf_decompress_lz4_block_mode fast al lz C size' elem_size))
     = ioc_get_in C + nbytes_from_header (at_ptr (in_mem C) (ioc_get_in C)) + 4"
  by (simp add: bshuf_decompress_lz4_block_mode_def Let_def split_def chain_simps split: option.splits)

lemma decompress_block_fast_negative_header:
  assumes "nbytes_from_header (at_ptr (in_mem C) (ioc_get_in C)) < 0"
  shows "fst (bshuf_decompress_lz4_block_mode True al lz C size' elem_size) < 0"
  using assms
  by (simp add: bshuf_decompress_lz4_block_mode_def Let_def split_def chain_simps split: option.splits)

lemma read_header_big: "bshuf_read_uint32_BE [128, 0, 0, 1, 9, 9, 9, 9, 9, 9, 9, 9] = 2147483649"
  by (simp add: bshuf_read_uint32_BE_def)


section \<open>Claims\<close>



text \<open>
  C3. For every \<open>elem_size \<ge> 1\<close>, \<^verbatim>\<open>bshuf_default_block_size(elem_size)\<close> returns
  \<open>max(128, floor(8192 / elem_size / 8) * 8)\<close>; the result is a multiple of 8 and at least
  128. The function is a function of \<open>elem_size\<close> alone.
\<close>

theorem default_block_size_formula:
  "1 \<le> elem_size \<Longrightarrow>
   bshuf_default_block_size elem_size = Some (max 128 (nat \<lfloor>8192 / real elem_size / 8\<rfloor> * 8))
   \<and> (\<exists>b. bshuf_default_block_size elem_size = Some b \<and> b mod 8 = 0 \<and> 128 \<le> b)"
proof -
  assume e: "1 \<le> elem_size"
  have "\<lfloor>8192 / real elem_size / 8\<rfloor> = \<lfloor>real 8192 / real (elem_size * 8)\<rfloor>" by simp
  also have "\<dots> = int (8192 div (elem_size * 8))" by (rule floor_divide_of_nat_eq)
  finally have f: "nat \<lfloor>8192 / real elem_size / 8\<rfloor> = 8192 div elem_size div 8"
    by (simp add: div_mult2_eq)
  show ?thesis using e unfolding f
    by (simp add: bshuf_default_block_size_def MAX_XY_def BSHUF_TARGET_BLOCK_SIZE_B_def
        BSHUF_BLOCKED_MULT_def BSHUF_MIN_RECOMMEND_BLOCK_def Let_def max_def)
qed

theorem default_block_size_formula_witness:
  "(1::nat) \<le> 3 \<and> bshuf_default_block_size 3 = Some 2728
   \<and> bshuf_default_block_size 3 = Some (max 128 (nat \<lfloor>8192 / real (3::nat) / 8\<rfloor> * 8))
   \<and> bshuf_default_block_size 100 = Some 128"
proof -
  have a: "bshuf_default_block_size 3 = Some 2728" "bshuf_default_block_size 100 = Some 128"
    by (simp_all add: bshuf_default_block_size_def MAX_XY_def BSHUF_TARGET_BLOCK_SIZE_B_def
        BSHUF_BLOCKED_MULT_def BSHUF_MIN_RECOMMEND_BLOCK_def Let_def)
  have "bshuf_default_block_size 3 = Some (max 128 (nat \<lfloor>8192 / real (3::nat) / 8\<rfloor> * 8))"
    using default_block_size_formula [of 3] by simp
  then show ?thesis using a by simp
qed

text \<open>
  C4, as amended. \<^verbatim>\<open>bshuf_trans_bit_byte_scal\<close> on \<open>nbyte = size * elem_size\<close> bytes,
  \<open>nbyte\<close> a multiple of 8: the eight rows of each transposed 8x8 bit matrix are stored
  \<open>nbyte / 8\<close> bytes apart. Bit \<open>k\<close> of the output byte at index \<open>r * (nbyte / 8) + g\<close>
  (\<open>r < 8\<close>, \<open>g < nbyte / 8\<close>) is bit \<open>r\<close> of input byte \<open>8 * g + k\<close>. When \<open>nbyte\<close> is
  not a multiple of 8 the function returns \<open>-80\<close> and writes nothing.
\<close>

theorem trans_bit_byte_scal_layout:
  assumes len: "size' * elem_size \<le> length out_b"
  shows "((elem_size * size') mod 8 = 0 \<longrightarrow>
           fst (bshuf_trans_bit_byte_scal in_b out_b size' elem_size) = int (size' * elem_size)
           \<and> (\<forall>r<8. \<forall>g < elem_size * size' div 8. \<forall>k<8.
                 bit (snd (bshuf_trans_bit_byte_scal in_b out_b size' elem_size) ! (r * (elem_size * size' div 8) + g)) k
                 = bit (in_b ! (8 * g + k)) r))
       \<and> ((elem_size * size') mod 8 \<noteq> 0 \<longrightarrow>
           bshuf_trans_bit_byte_scal in_b out_b size' elem_size = (- 80, out_b))"
proof (intro conjI impI allI)
  assume "(elem_size * size') mod 8 \<noteq> 0"
  then show "bshuf_trans_bit_byte_scal in_b out_b size' elem_size = (- 80, out_b)"
    by (simp add: bshuf_trans_bit_byte_scal_def bshuf_trans_bit_byte_remainder_def Let_def)
next
  assume n8: "(elem_size * size') mod 8 = 0"
  show "fst (bshuf_trans_bit_byte_scal in_b out_b size' elem_size) = int (size' * elem_size)"
    using trans_bit_byte_scal_result [OF refl len n8, of in_b] by simp
next
  fix r g k :: nat
  assume n8: "(elem_size * size') mod 8 = 0" and h: "r < 8" "g < elem_size * size' div 8" "k < 8"
  define nbr where "nbr = elem_size * size' div 8"
  have nb: "size' * elem_size = nbr * 8" using n8 by (simp add: nbr_def mod_eq_0_iff_dvd mult.commute)
  have i: "r * nbr + g < size' * elem_size" unfolding nb using h(2,1) unfolding nbr_def [symmetric] by (rule idx_lt)
  have "snd (bshuf_trans_bit_byte_scal in_b out_b size' elem_size) ! (r * nbr + g) = V_bit_byte in_b nbr (r * nbr + g)"
    using trans_bit_byte_scal_result [OF refl len n8, of in_b] i by (simp add: nbr_def nth_append)
  then show "bit (snd (bshuf_trans_bit_byte_scal in_b out_b size' elem_size) ! (r * (elem_size * size' div 8) + g)) k
                 = bit (in_b ! (8 * g + k)) r"
    unfolding nbr_def [symmetric] using bit_V_bit_byte_at [OF h(2) [unfolded nbr_def [symmetric]] h(1,3), of in_b] by simp
qed

theorem trans_bit_byte_scal_layout_witness:
  "16 * 1 \<le> length (replicate 16 (0::byte))
   \<and> bit (snd (bshuf_trans_bit_byte_scal [0,0,0,0,0,0,0,0,1,0,0,0,0,0,0,0] (replicate 16 0) 16 1) ! 1) 0
   \<and> bshuf_trans_bit_byte_scal [1, 2, 3] [0, 0, 0] 3 1 = (- 80, [0, 0, 0])"
proof -
  have a: "(16::nat) * 1 \<le> length (replicate 16 (0::byte))" by simp
  have b: "(3::nat) * 1 \<le> length [0, 0, 0 :: byte]" by simp
  show ?thesis
    using trans_bit_byte_scal_layout [OF a, of "[0,0,0,0,0,0,0,0,1,0,0,0,0,0,0,0]"]
      trans_bit_byte_scal_layout [OF b, of "[1, 2, 3]"]
    by (simp add: all_less_8)
qed

text \<open>
  C4 as stated places the transposed matrix of group \<open>g\<close> in bytes \<open>8 * g .. 8 * g + 7\<close>:
  output byte \<open>m\<close>, bit \<open>k\<close> would be input byte \<open>8 * (m div 8) + k\<close>, bit \<open>m mod 8\<close>. With
  16 input bytes of which only byte 8 is non-zero (value 1), output byte 1 has bit 0
  set, while input byte 0 has bit 1 clear.
\<close>

theorem trans_bit_byte_not_in_place_counterexample:
  "bit (snd (bshuf_trans_bit_byte_scal [0,0,0,0,0,0,0,0,1,0,0,0,0,0,0,0] (replicate 16 0) 16 1) ! 1) 0
   \<and> \<not> bit (([0,0,0,0,0,0,0,0,1,0,0,0,0,0,0,0] :: buf) ! (8 * (1 div 8) + 0)) (1 mod 8)"
proof -
  let ?x = "[0,0,0,0,0,0,0,0,1,0,0,0,0,0,0,0] :: buf"
  have r: "bshuf_trans_bit_byte_scal ?x (replicate 16 0) 16 1
      = (int (16 * 1), map (V_bit_byte ?x (1 * 16 div 8)) [0..<16 * 1] @ drop (16 * 1) (replicate 16 0))"
    by (rule trans_bit_byte_scal_result [where N = 16]) simp_all
  have "bit (V_bit_byte ?x 2 (0 * 2 + 1)) 0 = bit (?x ! (8 * 1 + 0)) 0"
    by (rule bit_V_bit_byte_at) simp_all
  then have "bit (V_bit_byte ?x 2 1) 0" by simp
  then show ?thesis unfolding r by (simp add: nth_append)
qed

text \<open>
  C5, as amended. \<^verbatim>\<open>BSHUF_LZ4_DECOMPRESS_FAST\<close> is defined in the source, so
  \<^verbatim>\<open>bshuf_decompress_lz4_block\<close> is the fast mode: when \<^verbatim>\<open>LZ4_decompress_fast\<close>
  returns a non-negative count of bytes read that differs from the header length, the
  worker returns \<open>-91\<close>. The safe mode (the \<^verbatim>\<open>#else\<close> branch) returns \<open>-91\<close> when
  the non-negative count of bytes written differs from \<open>size * elem_size\<close>.
\<close>

theorem decompress_block_mode_checks:
  assumes "al (size' * elem_size) = Some tmp"
  shows "bshuf_decompress_lz4_block al lz C size' elem_size
           = bshuf_decompress_lz4_block_mode True al lz C size' elem_size
       \<and> (\<forall>nbytes d. LZ4_decompress_fast lz (at_ptr (in_mem C) (ioc_get_in C + 4)) (to_int32 (size' * elem_size)) = (nbytes, d)
              \<longrightarrow> 0 \<le> nbytes \<longrightarrow> nbytes \<noteq> nbytes_from_header (at_ptr (in_mem C) (ioc_get_in C))
              \<longrightarrow> fst (bshuf_decompress_lz4_block al lz C size' elem_size) = - 91)
       \<and> (\<forall>nbytes d. LZ4_decompress_safe lz (at_ptr (in_mem C) (ioc_get_in C + 4))
                         (nbytes_from_header (at_ptr (in_mem C) (ioc_get_in C))) (to_int32 (size' * elem_size)) = (nbytes, d)
              \<longrightarrow> 0 \<le> nbytes \<longrightarrow> nbytes \<noteq> int (size' * elem_size)
              \<longrightarrow> fst (bshuf_decompress_lz4_block_mode False al lz C size' elem_size) = - 91)"
  using assms
  by (simp add: bshuf_decompress_lz4_block_def BSHUF_LZ4_DECOMPRESS_FAST_def bshuf_decompress_lz4_block_mode_def Let_def chain_simps)

theorem decompress_block_mode_checks_witness:
  "fst (bshuf_decompress_lz4_block al_zero lz4_stored (ioc_init [0, 0, 0, 9, 1, 2, 3, 4, 5, 6, 7, 8] (replicate 8 0)) 8 1) = - 91"
proof -
  let ?C = "ioc_init [0, 0, 0, 9, 1, 2, 3, 4, 5, 6, 7, 8] (replicate 8 0)"
  have a: "al_zero (8 * 1) = Some (replicate 8 0)" by (simp add: al_zero_def)
  have f: "LZ4_decompress_fast lz4_stored (at_ptr (in_mem ?C) (ioc_get_in ?C + 4)) (to_int32 (8 * 1)) = (8, [1, 2, 3, 4, 5, 6, 7, 8])"
    by (simp add: lz4_stored_def ioc_init_def to_int32_def at_ptr_def chain_simps)
  have h: "nbytes_from_header (at_ptr (in_mem ?C) (ioc_get_in ?C)) = 9"
    by (simp add: nbytes_from_header_def ioc_init_def read_header_9 chain_simps at_ptr_0)
  note t = decompress_block_mode_checks [where al = al_zero and size' = 8 and elem_size = 1
        and tmp = "replicate 8 0" and lz = lz4_stored and C = ?C, OF a]
  have "fst (bshuf_decompress_lz4_block al_zero lz4_stored ?C 8 1) = - 91"
    by (rule t [THEN conjunct2, THEN conjunct1, rule_format, OF f]) (use h in \<open>simp_all add: chain_simps\<close>)
  then show ?thesis .
qed

text \<open>
  C5 as stated makes the safe mode the default. In the source the fast mode is
  compiled: on a block with header 4 followed by 4 bytes, for 8 bytes to produce, the
  safe mode finds 4 bytes written and returns \<open>-91\<close>; the worker of the source calls
  \<^verbatim>\<open>LZ4_decompress_fast\<close>, which fails, and returns \<open>-1001\<close>.
\<close>

theorem decompress_block_default_fast_counterexample:
  "BSHUF_LZ4_DECOMPRESS_FAST
   \<and> fst (bshuf_decompress_lz4_block al_zero lz4_stored (ioc_init [0, 0, 0, 4, 1, 2, 3, 4] (replicate 8 0)) 8 1) = - 1001
   \<and> fst (bshuf_decompress_lz4_block_mode False al_zero lz4_stored (ioc_init [0, 0, 0, 4, 1, 2, 3, 4] (replicate 8 0)) 8 1) = - 91"
  by (simp add: BSHUF_LZ4_DECOMPRESS_FAST_def bshuf_decompress_lz4_block_def bshuf_decompress_lz4_block_mode_def
      Let_def ioc_init_def nbytes_from_header_def read_header_4 al_zero_def lz4_stored_def to_int32_def at_ptr_def chain_simps)

text \<open>
  C6, as amended. When \<^verbatim>\<open>LZ4_compress\<close> returns a negative value \<open>nbytes\<close>,
  \<^verbatim>\<open>bshuf_compress_lz4_block\<close> returns \<open>nbytes - 1000\<close>, which is below \<open>-1000\<close> and
  differs from every error code of bitshuffle itself.
\<close>

theorem compress_block_lz4_negative:
  assumes "al (size' * elem_size) = Some t1"
    and "al (to_size_t (LZ4_compressBound lz (to_int32 (size' * elem_size)))) = Some t2"
    and "bshuf_trans_bit_elem al (at_ptr (in_mem C) (ioc_get_in C)) t1 size' elem_size = (count, sh)"
    and "\<not> count < 0"
    and "LZ4_compress lz sh (to_int32 (size' * elem_size)) = (nbytes, dest)"
    and "nbytes < 0"
  shows "fst (bshuf_compress_lz4_block al lz C size' elem_size) = nbytes - 1000
         \<and> nbytes - 1000 < - 1000
         \<and> nbytes - 1000 \<notin> {- 1, - 11, - 12, - 80, - 81, - 91}"
  using assms by (simp add: bshuf_compress_lz4_block_def Let_def chain_simps)

theorem compress_block_lz4_negative_witness:
  "fst (bshuf_compress_lz4_block al_zero lz4_fail_neg (ioc_init [0, 1, 2, 3, 4, 5, 6, 7] (replicate 16 0)) 8 1) = - 1005"
proof -
  obtain y where y: "bshuf_trans_bit_elem al_zero (at_ptr (in_mem (ioc_init [0, 1, 2, 3, 4, 5, 6, 7] (replicate 16 0)))
            (ioc_get_in (ioc_init [0, 1, 2, 3, 4, 5, 6, 7] (replicate 16 0)))) (replicate 8 0) 8 1 = (8, y)"
    using stored_shuffle_8 by blast
  have c: "LZ4_compress lz4_fail_neg y (to_int32 (8 * 1)) = (- 5, [])"
    by (simp add: lz4_fail_neg_def)
  show ?thesis
    using compress_block_lz4_negative [where al = al_zero and lz = lz4_fail_neg and nbytes = "- 5" and dest = "[]"
        and C = "ioc_init [0, 1, 2, 3, 4, 5, 6, 7] (replicate 16 0)" and size' = 8 and elem_size = 1
        and count = 8 and sh = y, OF _ _ y _ c]
    by (simp add: al_zero_def)
qed

text \<open>
  C6 as stated also makes a result of zero a failure. \<^verbatim>\<open>CHECK_ERR_FREE_LZ\<close> tests
  \<open>count < 0\<close> only: when \<^verbatim>\<open>LZ4_compress\<close> returns 0 the worker writes a record of
  length 0 and returns 4.
\<close>

theorem compress_block_lz4_zero_counterexample:
  "fst (bshuf_compress_lz4_block al_zero lz4_fail_zero (ioc_init [0, 1, 2, 3, 4, 5, 6, 7] (replicate 16 0)) 8 1) = 4"
proof -
  obtain y where y: "bshuf_trans_bit_elem al_zero (at_ptr (in_mem (ioc_init [0, 1, 2, 3, 4, 5, 6, 7] (replicate 16 0)))
            (ioc_get_in (ioc_init [0, 1, 2, 3, 4, 5, 6, 7] (replicate 16 0)))) (replicate 8 0) 8 1 = (8, y)"
    using stored_shuffle_8 by blast
  have c: "LZ4_compress lz4_fail_zero y (to_int32 (8 * 1)) = (0, [])"
    by (simp add: lz4_fail_zero_def)
  show ?thesis
    using y c by (simp add: bshuf_compress_lz4_block_def Let_def al_zero_def chain_simps)
qed



text \<open>
  C9. \<^verbatim>\<open>bshuf_decompress_lz4_block\<close> stores the 32-bit header \<open>L\<close> in an
  \<^verbatim>\<open>int32_t\<close>. For \<open>L \<ge> 2^31\<close> the parsed value is \<open>L - 2^32\<close>, a negative number: the
  input head moves by \<open>L - 2^32 + 4\<close> and the comparison with the count returned by LZ4
  cannot succeed, so the worker returns an error. For \<open>L < 2^31\<close> the parsed value is
  \<open>L\<close> and the input head moves by \<open>L + 4\<close>.
\<close>

theorem decompress_block_header_signed:
  "(2 ^ 31 \<le> uint (bshuf_read_uint32_BE (at_ptr (in_mem C) (ioc_get_in C))) \<longrightarrow>
      nbytes_from_header (at_ptr (in_mem C) (ioc_get_in C))
        = uint (bshuf_read_uint32_BE (at_ptr (in_mem C) (ioc_get_in C))) - 2 ^ 32
      \<and> nbytes_from_header (at_ptr (in_mem C) (ioc_get_in C)) < 0
      \<and> next_in (snd (bshuf_decompress_lz4_block al lz C size' elem_size))
        = ioc_get_in C + (uint (bshuf_read_uint32_BE (at_ptr (in_mem C) (ioc_get_in C))) - 2 ^ 32) + 4
      \<and> fst (bshuf_decompress_lz4_block al lz C size' elem_size) < 0)
   \<and> (uint (bshuf_read_uint32_BE (at_ptr (in_mem C) (ioc_get_in C))) < 2 ^ 31 \<longrightarrow>
      nbytes_from_header (at_ptr (in_mem C) (ioc_get_in C))
        = uint (bshuf_read_uint32_BE (at_ptr (in_mem C) (ioc_get_in C)))
      \<and> next_in (snd (bshuf_decompress_lz4_block al lz C size' elem_size))
        = ioc_get_in C + uint (bshuf_read_uint32_BE (at_ptr (in_mem C) (ioc_get_in C))) + 4)"
proof -
  define L where "L = uint (bshuf_read_uint32_BE (at_ptr (in_mem C) (ioc_get_in C)))"
  have h: "nbytes_from_header (at_ptr (in_mem C) (ioc_get_in C)) = (if L < 2 ^ 31 then L else L - 2 ^ 32)"
    unfolding nbytes_from_header_def L_def by (rule sint32)
  have b: "L < 2 ^ 32" unfolding L_def using uint_lt2p [of "bshuf_read_uint32_BE (at_ptr (in_mem C) (ioc_get_in C))"] by simp
  have n: "next_in (snd (bshuf_decompress_lz4_block al lz C size' elem_size))
     = ioc_get_in C + nbytes_from_header (at_ptr (in_mem C) (ioc_get_in C)) + 4"
    unfolding bshuf_decompress_lz4_block_def by (rule decompress_block_next_in)
  have neg: "fst (bshuf_decompress_lz4_block al lz C size' elem_size) < 0" if "2 ^ 31 \<le> L"
    unfolding bshuf_decompress_lz4_block_def BSHUF_LZ4_DECOMPRESS_FAST_def
    by (rule decompress_block_fast_negative_header) (use that h b in simp)
  show ?thesis unfolding L_def [symmetric] using h n neg b by simp
qed

theorem decompress_block_header_signed_witness:
  "nbytes_from_header [128, 0, 0, 1, 9, 9, 9, 9, 9, 9, 9, 9] = - 2147483647
   \<and> next_in (snd (bshuf_decompress_lz4_block al_zero lz4_stored
         (ioc_init [128, 0, 0, 1, 9, 9, 9, 9, 9, 9, 9, 9] (replicate 8 0)) 8 1)) = - 2147483643
   \<and> fst (bshuf_decompress_lz4_block al_zero lz4_stored
         (ioc_init [128, 0, 0, 1, 9, 9, 9, 9, 9, 9, 9, 9] (replicate 8 0)) 8 1) < 0"
  using decompress_block_header_signed [of "ioc_init [128, 0, 0, 1, 9, 9, 9, 9, 9, 9, 9, 9] (replicate 8 0)" al_zero lz4_stored 8 1]
  by (simp add: ioc_init_def ioc_get_in_def at_ptr_def read_header_big)

text \<open>
  C10. \<^verbatim>\<open>bshuf_compress_lz4_bound\<close> returns \<^verbatim>\<open>size_t\<close>: for a non-zero
  \<open>block_size\<close> that is not a multiple of 8 the result is \<open>-81\<close> converted to
  \<^verbatim>\<open>size_t\<close>, which is \<open>SIZE_MAX - 80 = 2^64 - 81\<close>, a large positive number.
\<close>

theorem compress_lz4_bound_error_value:
  "block_size \<noteq> 0 \<Longrightarrow> block_size mod 8 \<noteq> 0 \<Longrightarrow>
   bshuf_compress_lz4_bound lz size' elem_size block_size = Some (SIZE_MAX - 80)
   \<and> SIZE_MAX - 80 = 2 ^ 64 - 81 \<and> (0::nat) < SIZE_MAX - 80"
  by (simp add: bshuf_compress_lz4_bound_def BSHUF_BLOCKED_MULT_def to_size_t_def SIZE_MAX_def)

theorem compress_lz4_bound_error_value_witness:
  "(12::nat) \<noteq> 0 \<and> (12::nat) mod 8 \<noteq> 0
   \<and> bshuf_compress_lz4_bound lz4_stored 1000 4 12 = Some 18446744073709551535"
  using compress_lz4_bound_error_value [of 12 lz4_stored 1000 4]
  by (simp add: SIZE_MAX_def)

end
